theory Spec2Isabelle
  imports Main "HOL-Library.AList"
begin

section \<open>Strings\<close>

text \<open>
  Python strings are modelled as \<^typ>\<open>string\<close>, a list of characters with code points
  0 to 255. The character classes below are those of the regular expressions in
  \<^verbatim>\<open>sanitize_label\<close>: \<^verbatim>\<open>[a-zA-Z0-9_]\<close> and \<^verbatim>\<open>\d\<close> (in this
  range the only decimal digits are the ASCII ones).
\<close>

definition code :: "char \<Rightarrow> nat" where
  "code c = of_char c"

definition is_digit :: "char \<Rightarrow> bool" where
  "is_digit c = (48 \<le> code c \<and> code c \<le> 57)"

definition is_word_char :: "char \<Rightarrow> bool" where
  "is_word_char c =
     ((97 \<le> code c \<and> code c \<le> 122) \<or> (65 \<le> code c \<and> code c \<le> 90)
      \<or> (48 \<le> code c \<and> code c \<le> 57) \<or> c = CHR ''_'')"

text \<open>\<^verbatim>\<open>s.replace(a, b)\<close> for one-character \<open>a\<close> and \<open>b\<close>.\<close>

definition replace_char :: "char \<Rightarrow> char \<Rightarrow> string \<Rightarrow> string" where
  "replace_char a b s = map (\<lambda>c. if c = a then b else c) s"

text \<open>\<^verbatim>\<open>re.match(r'^\d', s)\<close>: the string has a first character and it is a digit.\<close>

definition starts_with_digit :: "string \<Rightarrow> bool" where
  "starts_with_digit s = (case s of [] \<Rightarrow> False | c # _ \<Rightarrow> is_digit c)"

section \<open>Label Sanitizer\<close>

text \<open>
  \<^verbatim>\<open>
  def sanitize_label(label):
      sanitized = re.sub(r'[^a-zA-Z0-9_]', '', label.replace(" ", "_").replace("-", "_"))
      if re.match(r'^\d', sanitized):
          sanitized = "L_" + sanitized
      return sanitized or "Unknown"
  \<close>
\<close>

definition sanitize_label :: "string \<Rightarrow> string" where
  "sanitize_label label =
     (let sanitized = filter is_word_char
                        (replace_char CHR ''-'' CHR ''_'' (replace_char CHR '' '' CHR ''_'' label));
          sanitized = (if starts_with_digit sanitized then ''L_'' @ sanitized else sanitized)
      in if sanitized = [] then ''Unknown'' else sanitized)"

text \<open>
  The rule as the specification words it: replace spaces and hyphens by underscores,
  strip what is outside \<^verbatim>\<open>[A-Za-z0-9_]\<close>; an empty result gives \<^verbatim>\<open>Unknown\<close>, a
  result starting with a digit is prefixed with \<^verbatim>\<open>L_\<close>.
\<close>

definition stripped :: "string \<Rightarrow> string" where
  "stripped s = filter is_word_char
     (map (\<lambda>c. if c = CHR '' '' \<or> c = CHR ''-'' then CHR ''_'' else c) s)"

definition sanitize_spec :: "string \<Rightarrow> string" where
  "sanitize_spec s =
     (if stripped s = [] then ''Unknown''
      else if is_digit (hd (stripped s)) then ''L_'' @ stripped s
      else stripped s)"

section \<open>Ontology trees\<close>

text \<open>
  A tree node is the dictionary \<^verbatim>\<open>{"id": ..., "label": ..., "children": [...]}\<close>.
  The uploader reads it with \<^verbatim>\<open>node.get\<close>, so the id and the label may be absent
  (\<open>None\<close>); an absent list of children is the empty list.
\<close>

datatype node = Node (node_id: "string option") (node_label: "string option")
                     (node_children: "node list")

datatype error = ValueError string | AttributeError | RecursionError

text \<open>
  \<^verbatim>\<open>
  def count_nodes(node, children_field):
      count = 1
      for child in node.get(children_field, []):
          count += count_nodes(child, children_field)
      return count
  \<close>
\<close>

fun count_nodes :: "node \<Rightarrow> nat" where
  "count_nodes (Node i l children) = fold (\<lambda>child count. count + count_nodes child) children 1"

section \<open>Graph Uploader\<close>

text \<open>
  The two statements sent to the database inside a write transaction:
  \<open>UploadNode node_id label assigned_label\<close> is the call of \<^verbatim>\<open>upload_node\<close>
  (\<^verbatim>\<open>MERGE (n:assigned_label {id: $id}) SET n.name = $label\<close>) and
  \<open>CreateRelationship parent_id child_id\<close> the call of \<^verbatim>\<open>create_relationship\<close>.
\<close>

datatype db_op = UploadNode string string string | CreateRelationship string string

text \<open>Python truthiness of an optional string: neither \<^verbatim>\<open>None\<close> nor empty.\<close>

fun truthy :: "string option \<Rightarrow> bool" where
  "truthy None = False"
| "truthy (Some s) = (s \<noteq> [])"

text \<open>\<^verbatim>\<open>node.get(label_field, node_id)\<close>\<close>

fun raw_label :: "node \<Rightarrow> string option" where
  "raw_label (Node i l children) = (case l of Some x \<Rightarrow> Some x | None \<Rightarrow> i)"

text \<open>The f-string \<^verbatim>\<open>{assigned_label}\<close> in the statement of \<^verbatim>\<open>upload_node\<close>.\<close>

fun format_label :: "string option \<Rightarrow> string" where
  "format_label None = ''None''"
| "format_label (Some s) = s"

text \<open>
  \<^verbatim>\<open>
  def recurse(node, parent_id=None, parent_label=None, level=0):
      node_id = node.get(id_field)
      raw_label = node.get(label_field, node_id)
      children = node.get(children_field, [])
      current_label = sanitize_label(raw_label)
      assigned_label = current_label if level <= 1 else parent_label
      if node_id:
          upload_node(tx, node_id, raw_label, assigned_label)
          if parent_id:
              create_relationship(tx, parent_id, node_id)
          for child in children:
              recurse(child, parent_id=node_id, parent_label=assigned_label, level=level+1)
  \<close>
  The result is the list of statements issued, in order, and the exception that ended the
  traversal, if any: \<^verbatim>\<open>sanitize_label(None)\<close> raises when a node has neither label
  nor id. \<open>recurse_children\<close> is the \<^verbatim>\<open>for\<close> loop over the children.
\<close>

fun recurse :: "node \<Rightarrow> string option \<Rightarrow> string option \<Rightarrow> nat \<Rightarrow> db_op list \<times> error option"
and recurse_children ::
  "node list \<Rightarrow> string option \<Rightarrow> string option \<Rightarrow> nat \<Rightarrow> db_op list \<times> error option"
where
  "recurse (Node i l children) parent_id parent_label level =
     (case raw_label (Node i l children) of
        None \<Rightarrow> ([], Some AttributeError)
      | Some raw \<Rightarrow>
          (let current_label = sanitize_label raw;
               assigned_label = (if level \<le> 1 then Some current_label else parent_label)
           in case i of
                None \<Rightarrow> ([], None)
              | Some nid \<Rightarrow>
                  if nid = [] then ([], None)
                  else
                    (let up = UploadNode nid raw (format_label assigned_label);
                         rel = (case parent_id of
                                  None \<Rightarrow> []
                                | Some pid \<Rightarrow>
                                    if pid = [] then [] else [CreateRelationship pid nid]);
                         rest = recurse_children children (Some nid) assigned_label (level + 1)
                     in (up # rel @ fst rest, snd rest))))"
| "recurse_children [] parent_id parent_label level = ([], None)"
| "recurse_children (child # children) parent_id parent_label level =
     (case recurse child parent_id parent_label level of
        (ops, Some e) \<Rightarrow> (ops, Some e)
      | (ops, None) \<Rightarrow>
          (let rest = recurse_children children parent_id parent_label level
           in (ops @ fst rest, snd rest)))"

definition traverse_and_upload :: "node \<Rightarrow> db_op list \<times> error option" where
  "traverse_and_upload root_node = recurse root_node None None 0"

section \<open>RDF graphs\<close>

text \<open>
  The terms of \<^verbatim>\<open>rdflib\<close>: \<^verbatim>\<open>URIRef\<close>, \<^verbatim>\<open>BNode\<close> and
  \<^verbatim>\<open>Literal\<close>, each with the string that \<^verbatim>\<open>str()\<close> returns. A parsed graph is
  the list of its triples in the order in which \<^verbatim>\<open>for s, p, o in g\<close> yields them.
\<close>

datatype rdf_term = URIRef string | BNode string | Literal string

type_synonym triple = "rdf_term \<times> rdf_term \<times> rdf_term"

fun str_of :: "rdf_term \<Rightarrow> string" where
  "str_of (URIRef s) = s"
| "str_of (BNode s) = s"
| "str_of (Literal s) = s"

fun is_URIRef :: "rdf_term \<Rightarrow> bool" where
  "is_URIRef (URIRef s) = True"
| "is_URIRef t = False"

definition RDFS_label :: rdf_term where
  "RDFS_label = URIRef ''http://www.w3.org/2000/01/rdf-schema#label''"

definition RDFS_subClassOf :: rdf_term where
  "RDFS_subClassOf = URIRef ''http://www.w3.org/2000/01/rdf-schema#subClassOf''"

subsection \<open>String operations of the extractor\<close>

text \<open>\<^verbatim>\<open>s.split(c)\<close> for a one-character separator: never the empty list.\<close>

fun split_on :: "char \<Rightarrow> string \<Rightarrow> string list" where
  "split_on c [] = [[]]"
| "split_on c (x # xs) =
     (if x = c then [] # split_on c xs
      else (case split_on c xs of [] \<Rightarrow> [[x]] | w # ws \<Rightarrow> (x # w) # ws))"

text \<open>\<^verbatim>\<open>s.rstrip(c)\<close> for one character.\<close>

definition rstrip :: "char \<Rightarrow> string \<Rightarrow> string" where
  "rstrip c s = rev (dropWhile (\<lambda>x. x = c) (rev s))"

text \<open>
  \<^verbatim>\<open>
  def extract_fragment(uri):
      if "#" in uri:
          return uri.split("#")[-1]
      return uri.rstrip("/").split("/")[-1]
  \<close>
\<close>

definition extract_fragment :: "string \<Rightarrow> string" where
  "extract_fragment uri =
     (if CHR ''#'' \<in> set uri then last (split_on CHR ''#'' uri)
      else last (split_on CHR ''/'' (rstrip CHR ''/'' uri)))"

text \<open>
  \<^verbatim>\<open>str.lower()\<close> on code points 0 to 255: the letters A to Z and the capital
  letters of Latin-1 (192 to 222 except the multiplication sign 215) move up by 32.
\<close>

definition lower_char :: "char \<Rightarrow> char" where
  "lower_char c =
     (if (65 \<le> code c \<and> code c \<le> 90) \<or> (192 \<le> code c \<and> code c \<le> 222 \<and> code c \<noteq> 215)
      then char_of (code c + 32) else c)"

definition lower :: "string \<Rightarrow> string" where
  "lower s = map lower_char s"

section \<open>RDF Hierarchy Extractor\<close>

text \<open>
  The four containers of \<^verbatim>\<open>parse_ttl_to_json\<close>. The dictionaries \<open>children\<close>
  (a \<^verbatim>\<open>defaultdict(list)\<close>) and \<open>labels\<close> are association lists in insertion
  order; the sets \<open>parents\<close> and \<open>all_classes\<close> are lists without duplicates, whose
  order stands for the iteration order of the Python set.
\<close>

record index =
  children :: "(rdf_term \<times> rdf_term list) list"
  labels :: "(rdf_term \<times> string) list"
  parents :: "rdf_term list"
  all_classes :: "rdf_term list"

definition empty_index :: index where
  "empty_index = \<lparr>children = [], labels = [], parents = [], all_classes = []\<rparr>"

text \<open>\<^verbatim>\<open>children.get(node, [])\<close>\<close>

definition children_of :: "index \<Rightarrow> rdf_term \<Rightarrow> rdf_term list" where
  "children_of ix n = (case map_of (children ix) n of None \<Rightarrow> [] | Some cs \<Rightarrow> cs)"

text \<open>\<^verbatim>\<open>s.add(x)\<close>\<close>

definition set_add :: "'a \<Rightarrow> 'a list \<Rightarrow> 'a list" where
  "set_add x xs = (if x \<in> set xs then xs else xs @ [x])"

text \<open>
  The body of the loop over the triples:
  \<^verbatim>\<open>
  for s, p, o in g:
      if p == RDFS.label:
          labels[s] = str(o)
      elif p == RDFS.subClassOf and isinstance(o, URIRef):
          children[o].append(s)
          parents.add(s)
          all_classes.add(s)
          all_classes.add(o)
  \<close>
\<close>

fun scan_triple :: "triple \<Rightarrow> index \<Rightarrow> index" where
  "scan_triple (s, p, ob) ix =
     (if p = RDFS_label then ix\<lparr>labels := AList.update s (str_of ob) (labels ix)\<rparr>
      else if p = RDFS_subClassOf \<and> is_URIRef ob then
        ix\<lparr>children := AList.update ob (children_of ix ob @ [s]) (children ix),
           parents := set_add s (parents ix),
           all_classes := set_add ob (set_add s (all_classes ix))\<rparr>
      else ix)"

text \<open>
  \<^verbatim>\<open>
  for cls in all_classes:
      if cls not in labels:
          labels[cls] = extract_fragment(str(cls))
  \<close>
\<close>

definition fill_label :: "rdf_term \<Rightarrow> (rdf_term \<times> string) list \<Rightarrow> (rdf_term \<times> string) list" where
  "fill_label cls ls =
     (if map_of ls cls = None then AList.update cls (extract_fragment (str_of cls)) ls else ls)"

definition extract_hierarchy :: "triple list \<Rightarrow> index" where
  "extract_hierarchy g =
     (let ix = fold scan_triple g empty_index
      in ix\<lparr>labels := fold fill_label (all_classes ix) (labels ix)\<rparr>)"

section \<open>Root Resolver\<close>

text \<open>
  \<^verbatim>\<open>
  def get_uri_by_label(search_label):
      for uri, label in labels.items():
          if label.lower() == search_label.lower():
              return uri
      return None
  \<close>
\<close>

definition get_uri_by_label :: "index \<Rightarrow> string \<Rightarrow> rdf_term option" where
  "get_uri_by_label ix search_label =
     map_option fst (find (\<lambda>(uri, label). lower label = lower search_label) (labels ix))"

text \<open>
  \<^verbatim>\<open>
  if root_label:
      root_uri = get_uri_by_label(root_label)
      if not root_uri:
          raise ValueError(f"Root label '{root_label}' not found in TTL file.")
      roots = [root_uri]
  else:
      roots = [cls for cls in all_classes if cls not in parents]
  \<close>
  A term is a string in Python, so \<^verbatim>\<open>not root_uri\<close> also holds for a term whose
  string is empty.
\<close>

definition root_not_found :: "string \<Rightarrow> error" where
  "root_not_found root_label =
     ValueError (''Root label '' @ [CHR 0x27] @ root_label @ [CHR 0x27] @ '' not found in TTL file.'')"

definition resolve_roots :: "index \<Rightarrow> string option \<Rightarrow> error + rdf_term list" where
  "resolve_roots ix root_label =
     (case root_label of
        Some r \<Rightarrow>
          if r = [] then Inr (filter (\<lambda>cls. cls \<notin> set (parents ix)) (all_classes ix))
          else (case get_uri_by_label ix r of
                  None \<Rightarrow> Inl (root_not_found r)
                | Some root_uri \<Rightarrow>
                    if str_of root_uri = [] then Inl (root_not_found r) else Inr [root_uri])
      | None \<Rightarrow> Inr (filter (\<lambda>cls. cls \<notin> set (parents ix)) (all_classes ix)))"

section \<open>Tree Builder\<close>

text \<open>
  \<^verbatim>\<open>
  def build_json_tree(node):
      return {
          "id": str(node),
          "label": labels.get(node, extract_fragment(str(node))),
          "children": [build_json_tree(child) for child in children.get(node, [])]
      }
  \<close>
  The recursion has no bound of its own: on a cyclic hierarchy it runs until the
  interpreter's recursion limit and raises. The first argument is the number of nested
  calls still allowed; \<open>None\<close> is that exception.
\<close>

fun build_json_tree :: "nat \<Rightarrow> index \<Rightarrow> rdf_term \<Rightarrow> node option" where
  "build_json_tree 0 ix n = None"
| "build_json_tree (Suc limit) ix n =
     (case those (map (build_json_tree limit ix) (children_of ix n)) of
        None \<Rightarrow> None
      | Some cs \<Rightarrow>
          Some (Node (Some (str_of n))
                     (Some (case map_of (labels ix) n of
                              Some l \<Rightarrow> l
                            | None \<Rightarrow> extract_fragment (str_of n)))
                     cs))"

definition parse_ttl_to_json :: "nat \<Rightarrow> triple list \<Rightarrow> string option \<Rightarrow> error + node list" where
  "parse_ttl_to_json limit g root_label =
     (let ix = extract_hierarchy g
      in case resolve_roots ix root_label of
           Inl e \<Rightarrow> Inl e
         | Inr roots \<Rightarrow>
             (case those (map (build_json_tree limit ix) roots) of
                None \<Rightarrow> Inl RecursionError
              | Some trees \<Rightarrow> Inr trees))"

section \<open>The graph database\<close>

text \<open>
  The part of a property graph that the two Cypher statements read and write: each node
  has a set of labels and the properties \<^verbatim>\<open>id\<close> and \<^verbatim>\<open>name\<close>; a relationship
  of type \<^verbatim>\<open>SUBCLASS_OF\<close> is a pair (child, parent) of positions in the list of
  nodes.
\<close>

record gnode =
  g_labels :: "string list"
  g_id :: "string option"
  g_name :: "string option"

record database =
  db_nodes :: "gnode list"
  db_rels :: "(nat \<times> nat) list"

definition empty_db :: database where
  "empty_db = \<lparr>db_nodes = [], db_rels = []\<rparr>"

text \<open>
  \<^verbatim>\<open>
  def upload_node(tx, node_id, label, assigned_label):
      tx.run(f"""
          MERGE (n:{assigned_label} {{id: $id}})
          SET n.name = $label
      """, id=node_id, label=label)
  \<close>
  \<^verbatim>\<open>MERGE\<close> matches the nodes that carry the label and the id; when there is none it
  creates one. \<^verbatim>\<open>SET\<close> then writes the name of every matched (or the created) node.
\<close>

definition node_matches :: "string \<Rightarrow> string \<Rightarrow> gnode \<Rightarrow> bool" where
  "node_matches assigned_label nid n = (assigned_label \<in> set (g_labels n) \<and> g_id n = Some nid)"

definition upload_node :: "string \<Rightarrow> string \<Rightarrow> string \<Rightarrow> database \<Rightarrow> database" where
  "upload_node nid label assigned_label db =
     (if list_ex (node_matches assigned_label nid) (db_nodes db)
      then db\<lparr>db_nodes :=
                map (\<lambda>n. if node_matches assigned_label nid n then n\<lparr>g_name := Some label\<rparr> else n)
                    (db_nodes db)\<rparr>
      else db\<lparr>db_nodes :=
                db_nodes db @ [\<lparr>g_labels = [assigned_label], g_id = Some nid, g_name = Some label\<rparr>]\<rparr>)"

text \<open>
  \<^verbatim>\<open>
  def create_relationship(tx, parent_id, child_id):
      tx.run("""
          MATCH (p {id: $parent_id})
          MATCH (c {id: $child_id})
          MERGE (c)-[:SUBCLASS_OF]->(p)
      """, parent_id=parent_id, child_id=child_id)
  \<close>
  The two \<^verbatim>\<open>MATCH\<close> clauses yield every pair of a node with the parent id and a node
  with the child id, whatever their labels; \<^verbatim>\<open>MERGE\<close> adds the relationship for each
  pair that does not have it.
\<close>

definition with_id :: "database \<Rightarrow> string \<Rightarrow> nat list" where
  "with_id db nid = filter (\<lambda>k. g_id (db_nodes db ! k) = Some nid) [0..<length (db_nodes db)]"

definition merge_rel :: "nat \<times> nat \<Rightarrow> (nat \<times> nat) list \<Rightarrow> (nat \<times> nat) list" where
  "merge_rel r rs = (if r \<in> set rs then rs else rs @ [r])"

definition create_relationship :: "string \<Rightarrow> string \<Rightarrow> database \<Rightarrow> database" where
  "create_relationship parent_id child_id db =
     db\<lparr>db_rels :=
          fold merge_rel
            (concat (map (\<lambda>p. map (\<lambda>c. (c, p)) (with_id db child_id)) (with_id db parent_id)))
            (db_rels db)\<rparr>"

fun run_op :: "db_op \<Rightarrow> database \<Rightarrow> database" where
  "run_op (UploadNode nid label assigned_label) db = upload_node nid label assigned_label db"
| "run_op (CreateRelationship parent_id child_id) db = create_relationship parent_id child_id db"

text \<open>Uploading a tree in one write transaction; an exception rolls the transaction back.\<close>

definition upload_tree :: "node \<Rightarrow> database \<Rightarrow> database" where
  "upload_tree tree db =
     (case traverse_and_upload tree of
        (ops, None) \<Rightarrow> fold run_op ops db
      | (ops, Some e) \<Rightarrow> db)"

section \<open>Positions in a tree\<close>

text \<open>
  A position is the list of child indices leading from the root to a node; its length is
  the node's depth and \<open>butlast\<close> of it is the position of the parent.
\<close>

fun subtree :: "node \<Rightarrow> nat list \<Rightarrow> node option" where
  "subtree n [] = Some n"
| "subtree (Node i l cs) (k # p) =
     (if k < length cs then subtree (cs ! k) p else None)"

definition id_at :: "node \<Rightarrow> nat list \<Rightarrow> string" where
  "id_at t p = (case subtree t p of Some (Node (Some i) l cs) \<Rightarrow> i | _ \<Rightarrow> [])"

text \<open>
  The label of the node at a position: its \<^verbatim>\<open>label\<close> field, and for a node
  without one its id.
\<close>

definition raw_at :: "node \<Rightarrow> nat list \<Rightarrow> string" where
  "raw_at t p =
     (case subtree t p of
        None \<Rightarrow> []
      | Some n \<Rightarrow>
          (case node_label n of
             Some x \<Rightarrow> x
           | None \<Rightarrow> (case node_id n of Some i \<Rightarrow> i | None \<Rightarrow> [])))"

text \<open>
  The positions the traversal visits, in depth-first pre-order: a node whose id is absent or
  empty is skipped together with everything below it.
\<close>

fun visited :: "node \<Rightarrow> nat list list"
and visited_children :: "nat \<Rightarrow> node list \<Rightarrow> nat list list" where
  "visited (Node i l cs) = (if truthy i then [] # visited_children 0 cs else [])"
| "visited_children k [] = []"
| "visited_children k (child # cs) =
     map ((#) k) (visited child) @ visited_children (Suc k) cs"

text \<open>
  The type tag of the node at a position, as the specification words it: at depth 0 or 1 the
  node's own sanitized label, deeper the tag of its parent.
\<close>

function tag_at :: "node \<Rightarrow> nat list \<Rightarrow> string" where
  "tag_at t p =
     (if length p \<le> 1 then sanitize_label (raw_at t p) else tag_at t (butlast p))"
  by pat_completeness auto
termination
  by (relation "measure (\<lambda>(t, p). length p)") auto

text \<open>
  The same for a subtree entered at depth \<open>level\<close> with the parent's tag \<open>parent_label\<close>,
  as the recursion sees it.
\<close>

function tag_from :: "nat \<Rightarrow> string option \<Rightarrow> node \<Rightarrow> nat list \<Rightarrow> string" where
  "tag_from level parent_label n p =
     (if level + length p \<le> 1 then sanitize_label (raw_at n p)
      else if p = [] then format_label parent_label
      else tag_from level parent_label n (butlast p))"
  by pat_completeness auto
termination
  by (relation "measure (\<lambda>(level, parent_label, n, p). length p)") auto

definition assigned :: "nat \<Rightarrow> string option \<Rightarrow> node \<Rightarrow> string option" where
  "assigned level parent_label n =
     (if level \<le> 1 then Some (sanitize_label (raw_at n [])) else parent_label)"

fun rel_ops :: "string option \<Rightarrow> string \<Rightarrow> db_op list" where
  "rel_ops None c = []"
| "rel_ops (Some pid) c = (if pid = [] then [] else [CreateRelationship pid c])"

text \<open>The statements issued for the node at position \<open>p\<close>: its upsert, then its edge.\<close>

definition stmts_from ::
  "nat \<Rightarrow> string option \<Rightarrow> string option \<Rightarrow> node \<Rightarrow> nat list \<Rightarrow> db_op list" where
  "stmts_from level parent_id parent_label n p =
     UploadNode (id_at n p) (raw_at n p) (tag_from level parent_label n p)
     # (if p = [] then rel_ops parent_id (id_at n [])
        else [CreateRelationship (id_at n (butlast p)) (id_at n p)])"

definition stmts_at :: "node \<Rightarrow> nat list \<Rightarrow> db_op list" where
  "stmts_at t p =
     UploadNode (id_at t p) (raw_at t p) (tag_at t p)
     # (if p = [] then [] else [CreateRelationship (id_at t (butlast p)) (id_at t p)])"

text \<open>The (id, type tag) pairs of the upserts of a trace.\<close>

fun upload_tags :: "db_op list \<Rightarrow> (string \<times> string) list" where
  "upload_tags [] = []"
| "upload_tags (UploadNode i r tag # ops) = (i, tag) # upload_tags ops"
| "upload_tags (CreateRelationship p c # ops) = upload_tags ops"

text \<open>
  Every edge merge of a trace comes after the upserts of both its endpoints; \<open>seen\<close> holds
  the ids upserted so far.
\<close>

fun edges_after_nodes :: "string list \<Rightarrow> db_op list \<Rightarrow> bool" where
  "edges_after_nodes seen [] = True"
| "edges_after_nodes seen (UploadNode i r tag # ops) = edges_after_nodes (i # seen) ops"
| "edges_after_nodes seen (CreateRelationship p c # ops) =
     (p \<in> set seen \<and> c \<in> set seen \<and> edges_after_nodes seen ops)"

section \<open>Conversion Orchestrator\<close>

text \<open>
  What a conversion does to the database, in order: the reset
  (\<^verbatim>\<open>MATCH (n) DETACH DELETE n\<close>) and one write transaction per tree, committed, or
  rolled back when the traversal raised.
\<close>

datatype session_op = Reset | Commit "db_op list" | Rollback "db_op list"

datatype result = Preview "node list" | Success nat

text \<open>
  \<^verbatim>\<open>
  for tree in json_data:
      with driver.session() as session:
          session.execute_write(lambda tx: traverse_and_upload(tx, tree, "id", "label", "children", progress=None))
  \<close>
\<close>

fun upload_all :: "node list \<Rightarrow> session_op list \<times> error option" where
  "upload_all [] = ([], None)"
| "upload_all (tree # trees) =
     (case traverse_and_upload tree of
        (ops, Some e) \<Rightarrow> ([Rollback ops], Some e)
      | (ops, None) \<Rightarrow> (let rest = upload_all trees in (Commit ops # fst rest, snd rest)))"

text \<open>
  \<^verbatim>\<open>
  def run_conversion(ttl_path, root_label, neo4j_uri, username, password, preview_only=False):
      ...
      json_data = parse_ttl_to_json(ttl_path, root_label=root_label)
      if preview_only:
          return {"status": "preview", "json_data": json_data}
      driver = GraphDatabase.driver(neo4j_uri, auth=(username, password))
      reset_database(driver)
      total_nodes = sum(count_nodes(tree, "children") for tree in json_data)
      for tree in json_data: ...
      return {"status": "success", "nodes_uploaded": total_nodes}
  \<close>
  The model starts from the parsed graph; reading the file, the conversion of OWL/XML to
  Turtle and the connection are outside it. The result comes with the log of database
  operations performed.
\<close>

definition run_conversion ::
  "nat \<Rightarrow> triple list \<Rightarrow> string option \<Rightarrow> bool \<Rightarrow> (error + result) \<times> session_op list" where
  "run_conversion limit g root_label preview_only =
     (case parse_ttl_to_json limit g root_label of
        Inl e \<Rightarrow> (Inl e, [])
      | Inr json_data \<Rightarrow>
          if preview_only then (Inr (Preview json_data), [])
          else
            (let total_nodes = sum_list (map count_nodes json_data);
                 up = upload_all json_data
             in case snd up of
                  Some e \<Rightarrow> (Inl e, Reset # fst up)
                | None \<Rightarrow> (Inr (Success total_nodes), Reset # fst up)))"

text \<open>The effect of a log on the database.\<close>

fun run_session_op :: "session_op \<Rightarrow> database \<Rightarrow> database" where
  "run_session_op Reset db = empty_db"
| "run_session_op (Commit ops) db = fold run_op ops db"
| "run_session_op (Rollback ops) db = db"

text \<open>The number of node upserts in committed transactions.\<close>

fun count_uploads :: "db_op list \<Rightarrow> nat" where
  "count_uploads [] = 0"
| "count_uploads (UploadNode i r tag # ops) = Suc (count_uploads ops)"
| "count_uploads (CreateRelationship p c # ops) = count_uploads ops"

fun committed_uploads :: "session_op list \<Rightarrow> nat" where
  "committed_uploads [] = 0"
| "committed_uploads (Commit ops # log) = count_uploads ops + committed_uploads log"
| "committed_uploads (x # log) = committed_uploads log"

text \<open>Every node of the tree carries a non-empty id.\<close>

fun all_ids :: "node \<Rightarrow> bool" where
  "all_ids (Node i l cs) = (truthy i \<and> list_all all_ids cs)"

section \<open>Example ontologies\<close>

definition ex :: "string \<Rightarrow> rdf_term" where
  "ex name = URIRef (''http://example.org/onto#'' @ name)"

text \<open>Cat is a subclass of Mammal, Mammal a subclass of Animal.\<close>

definition animals :: "triple list" where
  "animals =
     [(ex ''A'', RDFS_subClassOf, ex ''B''),
      (ex ''B'', RDFS_subClassOf, ex ''C''),
      (ex ''A'', RDFS_label, Literal ''Cat''),
      (ex ''B'', RDFS_label, Literal ''Mammal''),
      (ex ''C'', RDFS_label, Literal ''Animal'')]"

definition animal_tree :: node where
  "animal_tree =
     Node (Some ''http://example.org/onto#C'') (Some ''Animal'')
       [Node (Some ''http://example.org/onto#B'') (Some ''Mammal'')
          [Node (Some ''http://example.org/onto#A'') (Some ''Cat'') []]]"

text \<open>A class with two parents below one root.\<close>

definition diamond :: "triple list" where
  "diamond =
     [(ex ''A'', RDFS_subClassOf, ex ''R''),
      (ex ''B'', RDFS_subClassOf, ex ''R''),
      (ex ''X'', RDFS_subClassOf, ex ''A''),
      (ex ''X'', RDFS_subClassOf, ex ''B'')]"

definition diamond_tree :: node where
  "diamond_tree =
     Node (Some ''http://example.org/onto#R'') (Some ''R'')
       [Node (Some ''http://example.org/onto#A'') (Some ''A'')
          [Node (Some ''http://example.org/onto#X'') (Some ''X'') []],
        Node (Some ''http://example.org/onto#B'') (Some ''B'')
          [Node (Some ''http://example.org/onto#X'') (Some ''X'') []]]"

text \<open>A class whose only superclass is an anonymous restriction (a blank node).\<close>

definition restricted :: "triple list" where
  "restricted =
     [(ex ''X'', RDFS_subClassOf, ex ''A''),
      (ex ''A'', RDFS_subClassOf, BNode ''b1'')]"

text \<open>A class below the namespace IRI itself, whose fragment is empty.\<close>

definition namespace_parent :: "triple list" where
  "namespace_parent = [(ex ''A'', RDFS_subClassOf, ex [])]"

text \<open>
  The same with a second class whose only superclass is anonymous; it takes part in no
  triple with a named object.
\<close>

definition unlabelled :: "triple list" where
  "unlabelled =
     [(ex ''A'', RDFS_subClassOf, ex []),
      (ex ''Y'', RDFS_subClassOf, BNode ''b1'')]"

section \<open>The hierarchy as the specification describes it\<close>

text \<open>
  The known classes: subjects and objects of the \<^verbatim>\<open>subClassOf\<close> triples whose object
  is a named entity. The classes with a named parent: the subjects of those triples.
\<close>

definition named_subclass :: "triple \<Rightarrow> bool" where
  "named_subclass t = (case t of (s, p, ob) \<Rightarrow> p = RDFS_subClassOf \<and> is_URIRef ob)"

definition known_classes :: "triple list \<Rightarrow> rdf_term set" where
  "known_classes g =
     {c. \<exists>s p ob. (s, p, ob) \<in> set g \<and> named_subclass (s, p, ob) \<and> (c = s \<or> c = ob)}"

definition has_named_parent :: "triple list \<Rightarrow> rdf_term set" where
  "has_named_parent g = {s. \<exists>p ob. (s, p, ob) \<in> set g \<and> named_subclass (s, p, ob)}"

text \<open>The subjects of all \<^verbatim>\<open>subClassOf\<close> triples, whatever the object.\<close>

definition subclass_subjects :: "triple list \<Rightarrow> rdf_term set" where
  "subclass_subjects g = {s. \<exists>ob. (s, RDFS_subClassOf, ob) \<in> set g}"

text \<open>
  The explicit label of an entity: the object of its last \<^verbatim>\<open>label\<close> triple in scan
  order, if it has one.
\<close>

fun explicit_label :: "triple list \<Rightarrow> rdf_term \<Rightarrow> string option" where
  "explicit_label [] c = None"
| "explicit_label ((s, p, ob) # g) c =
     (case explicit_label g c of
        Some l \<Rightarrow> Some l
      | None \<Rightarrow> if s = c \<and> p = RDFS_label then Some (str_of ob) else None)"

text \<open>
  The fragment of a URI: what follows the last \<^verbatim>\<open>#\<close>, or without one what follows
  the last \<^verbatim>\<open>/\<close> once the trailing \<^verbatim>\<open>/\<close> are removed.
\<close>

definition after_last :: "char \<Rightarrow> string \<Rightarrow> string" where
  "after_last c s = rev (takeWhile (\<lambda>x. x \<noteq> c) (rev s))"

definition fragment :: "string \<Rightarrow> string" where
  "fragment uri =
     (if CHR ''#'' \<in> set uri then after_last CHR ''#'' uri
      else after_last CHR ''/'' (rev (dropWhile (\<lambda>x. x = CHR ''/'') (rev uri))))"

definition resolved_label :: "triple list \<Rightarrow> rdf_term \<Rightarrow> string" where
  "resolved_label g c =
     (case explicit_label g c of Some l \<Rightarrow> l | None \<Rightarrow> fragment (str_of c))"

text \<open>
  A parsed graph: the identifier of a subject (an IRI or a blank node) is never empty, nor
  that of an object that is not a literal.
\<close>

fun wf_term :: "rdf_term \<Rightarrow> bool" where
  "wf_term (Literal s) = True"
| "wf_term t = (str_of t \<noteq> [])"

definition wf_graph :: "triple list \<Rightarrow> bool" where
  "wf_graph g = list_all (\<lambda>(s, p, ob). str_of s \<noteq> [] \<and> wf_term ob) g"

text \<open>Some entry of the label lookup matches the requested label, case-insensitively.\<close>

definition label_matches :: "index \<Rightarrow> string \<Rightarrow> bool" where
  "label_matches ix r = list_ex (\<lambda>(uri, label). lower label = lower r) (labels ix)"

text \<open>A tree as the Tree Builder makes it: every node has an id and a label.\<close>

fun labelled :: "node \<Rightarrow> bool" where
  "labelled (Node i l cs) = (i \<noteq> None \<and> l \<noteq> None \<and> list_all labelled cs)"

lemma stripped_eq:
  "filter is_word_char (replace_char CHR ''-'' CHR ''_'' (replace_char CHR '' '' CHR ''_'' s))
     = stripped s"
  by (induction s) (simp_all add: stripped_def replace_char_def)

lemma stripped_word_chars: "list_all is_word_char (stripped s)"
  by (simp add: stripped_def list_all_iff)

lemma word_char_literals:
  "is_word_char CHR ''L''" "is_word_char CHR ''_''"
  "\<not> is_digit CHR ''L''" "\<not> is_digit CHR ''U''"
  by (simp_all add: is_word_char_def is_digit_def code_def)

lemma unknown_word_chars: "list_all is_word_char ''Unknown''"
  by (simp add: is_word_char_def code_def)

lemma sanitize_label_refines: "sanitize_label s = sanitize_spec s"
  unfolding sanitize_label_def sanitize_spec_def stripped_eq starts_with_digit_def Let_def
  by (cases "stripped s") simp_all

text \<open>
  Claim C3. For every string, \<open>sanitize_label\<close> returns a string over
  \<^verbatim>\<open>[A-Za-z0-9_]\<close> that does not start with a digit (and is not empty); it is the
  stripped input, prefixed with \<^verbatim>\<open>L_\<close> when that starts with a digit, and the
  literal \<^verbatim>\<open>Unknown\<close> when the stripped input is empty, as for \<^verbatim>\<open>!!!\<close>.
\<close>

theorem sanitize_label_correct:
  "list_all is_word_char (sanitize_label s)
   \<and> sanitize_label s \<noteq> [] \<and> \<not> starts_with_digit (sanitize_label s)
   \<and> sanitize_label s = sanitize_spec s
   \<and> (stripped s = [] \<longrightarrow> sanitize_label s = ''Unknown'')
   \<and> sanitize_label ''!!!'' = ''Unknown''"
proof -
  have eq: "sanitize_label s = sanitize_spec s" by (rule sanitize_label_refines)
  have chars: "list_all is_word_char (sanitize_spec s)"
  proof (cases "stripped s = []")
    case True
    then have "sanitize_spec s = ''Unknown''" by (simp add: sanitize_spec_def)
    then show ?thesis by (simp only: unknown_word_chars)
  next
    case False
    have "list_all is_word_char (''L_'' @ stripped s)"
      using stripped_word_chars [of s] by (simp add: word_char_literals(1,2))
    with False stripped_word_chars [of s] show ?thesis
      by (simp add: sanitize_spec_def del: append.simps)
  qed
  have nonempty: "sanitize_spec s \<noteq> []" by (simp add: sanitize_spec_def)
  have nodigit: "\<not> starts_with_digit (sanitize_spec s)"
    by (cases "stripped s")
       (simp_all add: sanitize_spec_def starts_with_digit_def word_char_literals)
  have empty: "stripped s = [] \<longrightarrow> sanitize_spec s = ''Unknown''"
    by (simp add: sanitize_spec_def)
  have bang: "sanitize_label ''!!!'' = ''Unknown''"
    by (simp add: sanitize_label_def replace_char_def is_word_char_def code_def
        starts_with_digit_def)
  from eq chars nonempty nodigit empty bang show ?thesis by simp
qed

theorem sanitize_label_correct_witness:
  "stripped ''?!'' = [] \<and> sanitize_label ''?!'' = ''Unknown''
   \<and> sanitize_label ''3 little-pigs!'' = ''L_3_little_pigs''"
proof -
  have s: "stripped ''?!'' = []"
    by (simp add: stripped_def is_word_char_def code_def)
  have p: "sanitize_label ''3 little-pigs!'' = ''L_3_little_pigs''"
    by (simp add: sanitize_label_def replace_char_def is_word_char_def is_digit_def code_def
        starts_with_digit_def)
  from s p sanitize_label_correct [of "''?!''"] show ?thesis by blast
qed

section \<open>The trace of a traversal\<close>

text \<open>
  The statements issued by a traversal that raises no exception are those of the visited
  positions, in depth-first pre-order.
\<close>

declare tag_from.simps [simp del] tag_at.simps [simp del]

lemma tag_from_Nil: "tag_from level pl n [] = format_label (assigned level pl n)"
  by (subst tag_from.simps) (simp add: assigned_def)

lemma subtree_Cons:
  "k < length cs \<Longrightarrow> subtree (Node i l cs) (k # p) = subtree (cs ! k) p"
  by simp

lemma id_at_Cons: "k < length cs \<Longrightarrow> id_at (Node i l cs) (k # p) = id_at (cs ! k) p"
  by (simp add: id_at_def)

lemma raw_at_Cons: "k < length cs \<Longrightarrow> raw_at (Node i l cs) (k # p) = raw_at (cs ! k) p"
  by (simp add: raw_at_def)

lemma tag_from_Cons:
  "k < length cs \<Longrightarrow>
   tag_from level pl (Node i l cs) (k # p)
     = tag_from (Suc level) (assigned level pl (Node i l cs)) (cs ! k) p"
proof (induction p rule: rev_induct)
  case Nil
  show ?case
  proof (cases "level = 0")
    case True
    with Nil show ?thesis
      by (subst tag_from.simps, subst (2) tag_from.simps) (simp add: raw_at_Cons)
  next
    case False
    have "tag_from level pl (Node i l cs) [k] = tag_from level pl (Node i l cs) []"
      using False by (simp add: tag_from.simps [of level pl "Node i l cs" "[k]"])
    moreover have "tag_from (Suc level) (assigned level pl (Node i l cs)) (cs ! k) []
                     = format_label (assigned level pl (Node i l cs))"
      using False by (simp add: tag_from_Nil assigned_def)
    ultimately show ?thesis by (simp add: tag_from_Nil)
  qed
next
  case (snoc x q)
  have "tag_from level pl (Node i l cs) (k # q @ [x]) = tag_from level pl (Node i l cs) (k # q)"
    by (subst tag_from.simps) (simp add: butlast_append)
  also have "\<dots> = tag_from (Suc level) (assigned level pl (Node i l cs)) (cs ! k) q"
    using snoc by simp
  also have "\<dots> = tag_from (Suc level) (assigned level pl (Node i l cs)) (cs ! k) (q @ [x])"
    by (subst (2) tag_from.simps) (simp add: butlast_append)
  finally show ?case .
qed

lemma tag_at_from: "tag_at t p = tag_from 0 None t p"
proof (induction p rule: rev_induct)
  case Nil
  show ?case by (subst tag_at.simps, subst tag_from.simps) simp
next
  case (snoc x q)
  show ?case
  proof (cases "q = []")
    case True
    then show ?thesis by (subst tag_at.simps, subst tag_from.simps) simp
  next
    case False
    then show ?thesis using snoc
      by (subst tag_at.simps, subst tag_from.simps) (simp add: butlast_append)
  qed
qed

lemma recurse_no_label: "recurse (Node None None cs) pid pl lvl = ([], Some AttributeError)"
  by simp

lemma recurse_no_id: "recurse (Node None (Some x) cs) pid pl lvl = ([], None)"
  by simp

lemma recurse_empty_id: "recurse (Node (Some []) l cs) pid pl lvl = ([], None)"
  by (cases l) simp_all

lemma recurse_upload:
  "nid \<noteq> [] \<Longrightarrow>
   recurse (Node (Some nid) l cs) pid pl lvl =
     (UploadNode nid (raw_at (Node (Some nid) l cs) [])
        (format_label (assigned lvl pl (Node (Some nid) l cs)))
      # rel_ops pid nid
      @ fst (recurse_children cs (Some nid) (assigned lvl pl (Node (Some nid) l cs)) (Suc lvl)),
      snd (recurse_children cs (Some nid) (assigned lvl pl (Node (Some nid) l cs)) (Suc lvl)))"
  by (cases l; cases pid) (simp_all add: assigned_def raw_at_def Let_def)

lemma recurse_children_Cons:
  "recurse_children (c # cs) pid pl lvl =
     (case snd (recurse c pid pl lvl) of
        Some e \<Rightarrow> recurse c pid pl lvl
      | None \<Rightarrow> (fst (recurse c pid pl lvl) @ fst (recurse_children cs pid pl lvl),
                 snd (recurse_children cs pid pl lvl)))"
  by (cases "recurse c pid pl lvl") (simp add: Let_def split: option.splits)

declare recurse.simps [simp del] recurse_children.simps(2) [simp del]

lemma stmts_from_Nil:
  "stmts_from lvl pid pl (Node (Some nid) l cs) [] =
     UploadNode nid (raw_at (Node (Some nid) l cs) [])
       (format_label (assigned lvl pl (Node (Some nid) l cs))) # rel_ops pid nid"
  by (simp add: stmts_from_def tag_from_Nil id_at_def)

lemma stmts_from_Cons:
  assumes "k < length cs" and "nid \<noteq> []"
  shows "stmts_from lvl pid pl (Node (Some nid) l cs) (k # p)
           = stmts_from (Suc lvl) (Some nid) (assigned lvl pl (Node (Some nid) l cs)) (cs ! k) p"
proof (cases "p = []")
  case True
  have "id_at (Node (Some nid) l cs) [] = nid" by (simp add: id_at_def)
  with True assms show ?thesis
    by (simp add: stmts_from_def tag_from_Cons id_at_Cons raw_at_Cons)
next
  case False
  then have "butlast (k # p) = k # butlast p" by simp
  with False assms show ?thesis
    by (simp add: stmts_from_def tag_from_Cons id_at_Cons raw_at_Cons)
qed

lemma visited_children_stmts:
  assumes "nid \<noteq> []" and "cs = pre @ suf"
  shows "concat (map (stmts_from lvl pid pl (Node (Some nid) l cs))
                     (visited_children (length pre) suf))
           = concat (map (\<lambda>c. concat (map (stmts_from (Suc lvl) (Some nid)
                                  (assigned lvl pl (Node (Some nid) l cs)) c) (visited c))) suf)"
  using assms(2)
proof (induction suf arbitrary: pre)
  case Nil
  show ?case by simp
next
  case (Cons c suf)
  have k: "length pre < length cs" and ck: "cs ! length pre = c"
    using Cons.prems by simp_all
  have here: "map (stmts_from lvl pid pl (Node (Some nid) l cs)) (map ((#) (length pre)) (visited c))
                = map (stmts_from (Suc lvl) (Some nid) (assigned lvl pl (Node (Some nid) l cs)) c)
                      (visited c)"
    using stmts_from_Cons [OF k assms(1)] ck by simp
  have rest: "cs = (pre @ [c]) @ suf" using Cons.prems by simp
  have ih: "concat (map (stmts_from lvl pid pl (Node (Some nid) l cs))
                        (visited_children (Suc (length pre)) suf))
      = concat (map (\<lambda>c. concat (map (stmts_from (Suc lvl) (Some nid)
                             (assigned lvl pl (Node (Some nid) l cs)) c) (visited c))) suf)"
    using Cons.IH [OF rest] by simp
  show ?case
    by (simp only: visited_children.simps map_append concat_append here ih list.map concat.simps)
qed

lemma children_trace:
  assumes "\<And>c pid pl lvl. c \<in> set cs \<Longrightarrow> snd (recurse c pid pl lvl) = None \<Longrightarrow>
             fst (recurse c pid pl lvl) = concat (map (stmts_from lvl pid pl c) (visited c))"
  shows "snd (recurse_children cs pid pl lvl) = None \<Longrightarrow>
         fst (recurse_children cs pid pl lvl)
           = concat (map (\<lambda>c. concat (map (stmts_from lvl pid pl c) (visited c))) cs)"
  using assms
proof (induction cs)
  case Nil
  show ?case by simp
next
  case (Cons c cs)
  from Cons.prems(1) have c: "snd (recurse c pid pl lvl) = None"
    and cs: "snd (recurse_children cs pid pl lvl) = None"
    by (auto simp: recurse_children_Cons split: option.splits)
  have "fst (recurse c pid pl lvl) = concat (map (stmts_from lvl pid pl c) (visited c))"
    using Cons.prems(2) c by simp
  moreover have "fst (recurse_children cs pid pl lvl)
      = concat (map (\<lambda>c. concat (map (stmts_from lvl pid pl c) (visited c))) cs)"
    using Cons.IH cs Cons.prems(2) by simp
  ultimately show ?case using c by (simp add: recurse_children_Cons)
qed

lemma recurse_trace:
  "snd (recurse n pid pl lvl) = None \<Longrightarrow>
   fst (recurse n pid pl lvl) = concat (map (stmts_from lvl pid pl n) (visited n))"
proof (induction n arbitrary: pid pl lvl)
  case (Node i l cs)
  show ?case
  proof (cases "truthy i")
    case False
    then have "fst (recurse (Node i l cs) pid pl lvl) = []"
      by (cases i; cases l) (simp_all add: recurse_no_label recurse_no_id recurse_empty_id)
    with False show ?thesis by simp
  next
    case True
    then obtain nid where i: "i = Some nid" and nid: "nid \<noteq> []" by (cases i) auto
    let ?N = "Node (Some nid) l cs"
    let ?A = "assigned lvl pl ?N"
    from Node.prems have ok: "snd (recurse_children cs (Some nid) ?A (Suc lvl)) = None"
      by (simp add: i recurse_upload [OF nid])
    have kids: "fst (recurse_children cs (Some nid) ?A (Suc lvl))
        = concat (map (\<lambda>c. concat (map (stmts_from (Suc lvl) (Some nid) ?A c) (visited c))) cs)"
      using children_trace [of cs, OF _ ok] Node.IH by (simp add: i)
    have "concat (map (stmts_from lvl pid pl ?N) (visited_children (length ([]::node list)) cs))
        = concat (map (\<lambda>c. concat (map (stmts_from (Suc lvl) (Some nid) ?A c) (visited c))) cs)"
      by (rule visited_children_stmts [OF nid]) simp
    with kids show ?thesis
      by (simp add: i nid recurse_upload [OF nid] stmts_from_Nil)
  qed
qed

section \<open>Type tags\<close>

lemma stmts_from_top: "stmts_from 0 None None t = stmts_at t"
  by (rule ext) (simp add: stmts_from_def stmts_at_def tag_at_from)

lemma traverse_trace:
  assumes "snd (traverse_and_upload t) = None"
  shows "fst (traverse_and_upload t) = concat (map (stmts_at t) (visited t))"
proof -
  have "fst (recurse t None None 0) = concat (map (stmts_from 0 None None t) (visited t))"
    using assms by (intro recurse_trace) (simp add: traverse_and_upload_def)
  then show ?thesis by (simp add: traverse_and_upload_def stmts_from_top)
qed

lemma upload_tags_append: "upload_tags (a @ b) = upload_tags a @ upload_tags b"
  by (induction a rule: upload_tags.induct) simp_all

lemma upload_tags_stmts:
  "upload_tags (concat (map (stmts_at t) ps)) = map (\<lambda>p. (id_at t p, tag_at t p)) ps"
  by (induction ps) (simp_all add: upload_tags_append stmts_at_def)

lemma tag_at_shallow: "length p \<le> 1 \<Longrightarrow> tag_at t p = sanitize_label (raw_at t p)"
  by (subst tag_at.simps) simp

lemma tag_at_deep: "2 \<le> length p \<Longrightarrow> tag_at t p = tag_at t (butlast p)"
  by (subst tag_at.simps) simp

lemma tag_at_own_label:
  "length p \<le> 1 \<Longrightarrow> subtree t p = Some n \<Longrightarrow> node_label n = Some x \<Longrightarrow>
   tag_at t p = sanitize_label x"
  by (simp add: tag_at_shallow raw_at_def)

lemma tag_at_take: "tag_at t p = sanitize_label (raw_at t (take 1 p))"
proof (induction p rule: rev_induct)
  case Nil
  show ?case by (simp add: tag_at_shallow)
next
  case (snoc x q)
  show ?case
  proof (cases "q = []")
    case True
    then show ?thesis by (simp add: tag_at_shallow)
  next
    case False
    then have "2 \<le> length (q @ [x])" by (cases q) simp_all
    then have "tag_at t (q @ [x]) = tag_at t q" by (simp add: tag_at_deep)
    with False snoc show ?thesis by (cases q) simp_all
  qed
qed

text \<open>
  Claim C1. In a traversal that completes, the upserts are those of the visited positions
  in pre-order, each with the type tag of its position. At depth 0 and 1 the tag is the
  sanitized label of the node itself, read from its \<^verbatim>\<open>label\<close> field; at depth 2
  and more it is the tag of the parent position, hence the sanitized label of the ancestor
  at depth 1.
\<close>

theorem type_tag_by_depth:
  assumes "snd (traverse_and_upload t) = None"
  shows "upload_tags (fst (traverse_and_upload t)) = map (\<lambda>p. (id_at t p, tag_at t p)) (visited t)
         \<and> (\<forall>p. length p \<le> 1 \<longrightarrow> tag_at t p = sanitize_label (raw_at t p))
         \<and> (\<forall>p. 2 \<le> length p \<longrightarrow> tag_at t p = tag_at t (butlast p))
         \<and> (\<forall>p n x. length p \<le> 1 \<and> subtree t p = Some n \<and> node_label n = Some x \<longrightarrow>
                tag_at t p = sanitize_label x)
         \<and> (\<forall>p. tag_at t p = sanitize_label (raw_at t (take 1 p)))"
proof (intro conjI allI impI)
  show "upload_tags (fst (traverse_and_upload t)) = map (\<lambda>p. (id_at t p, tag_at t p)) (visited t)"
    using traverse_trace [OF assms] by (simp add: upload_tags_stmts)
next
  fix p :: "nat list"
  assume "length p \<le> 1"
  then show "tag_at t p = sanitize_label (raw_at t p)" by (rule tag_at_shallow)
next
  fix p :: "nat list"
  assume "2 \<le> length p"
  then show "tag_at t p = tag_at t (butlast p)" by (rule tag_at_deep)
next
  fix p n x
  assume "length p \<le> 1 \<and> subtree t p = Some n \<and> node_label n = Some x"
  then show "tag_at t p = sanitize_label x" by (simp add: tag_at_own_label)
next
  fix p
  show "tag_at t p = sanitize_label (raw_at t (take 1 p))" by (rule tag_at_take)
qed

lemma traverse_animal_tree:
  "traverse_and_upload animal_tree =
     ([UploadNode ''http://example.org/onto#C'' ''Animal'' ''Animal'',
       UploadNode ''http://example.org/onto#B'' ''Mammal'' ''Mammal'',
       CreateRelationship ''http://example.org/onto#C'' ''http://example.org/onto#B'',
       UploadNode ''http://example.org/onto#A'' ''Cat'' ''Mammal'',
       CreateRelationship ''http://example.org/onto#B'' ''http://example.org/onto#A''], None)"
  by code_simp

lemma animal_tree_positions:
  "subtree animal_tree [0] =
     Some (Node (Some ''http://example.org/onto#B'') (Some ''Mammal'')
            [Node (Some ''http://example.org/onto#A'') (Some ''Cat'') []])"
  by (simp add: animal_tree_def)

theorem type_tag_by_depth_witness:
  "snd (traverse_and_upload animal_tree) = None
   \<and> upload_tags (fst (traverse_and_upload animal_tree))
       = [(''http://example.org/onto#C'', ''Animal''),
          (''http://example.org/onto#B'', ''Mammal''),
          (''http://example.org/onto#A'', ''Mammal'')]
   \<and> tag_at animal_tree [0] = ''Mammal''
   \<and> tag_at animal_tree [0, 0] = tag_at animal_tree [0]"
proof -
  have h: "snd (traverse_and_upload animal_tree) = None"
    by code_simp
  note tags = type_tag_by_depth [OF h]
  from tags have trace: "upload_tags (fst (traverse_and_upload animal_tree))
      = map (\<lambda>p. (id_at animal_tree p, tag_at animal_tree p)) (visited animal_tree)"
    by (rule conjunct1)
  from tags have shallow: "\<And>p n x. length p \<le> 1 \<Longrightarrow> subtree animal_tree p = Some n \<Longrightarrow>
      node_label n = Some x \<Longrightarrow> tag_at animal_tree p = sanitize_label x"
    by blast
  from tags have deep: "\<And>p. 2 \<le> length p \<Longrightarrow> tag_at animal_tree p = tag_at animal_tree (butlast p)"
    by blast
  have vis: "visited animal_tree = [[], [0], [0, 0]]"
    by code_simp
  have ids: "id_at animal_tree [] = ''http://example.org/onto#C''"
    "id_at animal_tree [0] = ''http://example.org/onto#B''"
    "id_at animal_tree [0, 0] = ''http://example.org/onto#A''"
    by (simp_all add: id_at_def animal_tree_def)
  have lab: "sanitize_label ''Animal'' = ''Animal''" "sanitize_label ''Mammal'' = ''Mammal''"
    by code_simp+
  have "tag_at animal_tree [] = sanitize_label ''Animal''"
    by (rule shallow [where n = animal_tree]) (simp_all add: animal_tree_def)
  then have root: "tag_at animal_tree [] = ''Animal''"
    by (simp only: lab)
  have "tag_at animal_tree [0] = sanitize_label ''Mammal''"
    by (rule shallow [OF _ animal_tree_positions]) simp_all
  then have b: "tag_at animal_tree [0] = ''Mammal''"
    by (simp only: lab)
  have a: "tag_at animal_tree [0, 0] = tag_at animal_tree [0]"
    using deep [of "[0, 0]"] by simp
  have "upload_tags (fst (traverse_and_upload animal_tree))
      = [(''http://example.org/onto#C'', ''Animal''),
         (''http://example.org/onto#B'', ''Mammal''),
         (''http://example.org/onto#A'', ''Mammal'')]"
    by (simp add: trace vis ids root a b)
  with h a b show ?thesis by simp
qed

section \<open>Order of the statements\<close>

lemma edges_after_nodes_mono:
  "edges_after_nodes seen ops \<Longrightarrow> set seen \<subseteq> set seen' \<Longrightarrow> edges_after_nodes seen' ops"
proof (induction seen ops arbitrary: seen' rule: edges_after_nodes.induct)
  case (1 seen)
  show ?case by simp
next
  case (2 seen i r tag ops)
  have "set (i # seen) \<subseteq> set (i # seen')" using "2.prems"(2) by auto
  with "2.IH" "2.prems"(1) show ?case by simp
next
  case (3 seen p c ops)
  then show ?case by auto
qed

lemma edges_after_nodes_append:
  "edges_after_nodes seen a \<Longrightarrow> edges_after_nodes seen b \<Longrightarrow> edges_after_nodes seen (a @ b)"
proof (induction seen a rule: edges_after_nodes.induct)
  case (1 seen)
  then show ?case by simp
next
  case (2 seen i r tag ops)
  have "edges_after_nodes (i # seen) b"
    using "2.prems"(2) by (rule edges_after_nodes_mono) auto
  with 2 show ?case by simp
next
  case (3 seen p c ops)
  then show ?case by simp
qed

lemma rel_ops_ok:
  "(\<And>q. pid = Some q \<Longrightarrow> q \<noteq> [] \<Longrightarrow> q \<in> set seen) \<Longrightarrow> nid \<in> set seen \<Longrightarrow>
   edges_after_nodes seen (rel_ops pid nid)"
  by (cases pid) simp_all

lemma children_edges_ok:
  assumes "\<And>c seen pid pl lvl. c \<in> set cs \<Longrightarrow> (\<And>q. pid = Some q \<Longrightarrow> q \<noteq> [] \<Longrightarrow> q \<in> set seen) \<Longrightarrow>
             edges_after_nodes seen (fst (recurse c pid pl lvl))"
    and "\<And>q. pid = Some q \<Longrightarrow> q \<noteq> [] \<Longrightarrow> q \<in> set seen"
  shows "edges_after_nodes seen (fst (recurse_children cs pid pl lvl))"
  using assms
proof (induction cs)
  case Nil
  show ?case by simp
next
  case (Cons c cs)
  have c: "edges_after_nodes seen (fst (recurse c pid pl lvl))"
    using Cons.prems by simp
  have cs: "edges_after_nodes seen (fst (recurse_children cs pid pl lvl))"
    using Cons.IH Cons.prems by simp
  show ?case
    by (cases "snd (recurse c pid pl lvl)")
       (simp_all add: recurse_children_Cons c cs edges_after_nodes_append)
qed

lemma recurse_edges_ok:
  "(\<And>q. pid = Some q \<Longrightarrow> q \<noteq> [] \<Longrightarrow> q \<in> set seen) \<Longrightarrow>
   edges_after_nodes seen (fst (recurse n pid pl lvl))"
proof (induction n arbitrary: seen pid pl lvl)
  case (Node i l cs)
  show ?case
  proof (cases "truthy i")
    case False
    then have "fst (recurse (Node i l cs) pid pl lvl) = []"
      by (cases i; cases l) (simp_all add: recurse_no_label recurse_no_id recurse_empty_id)
    then show ?thesis by simp
  next
    case True
    then obtain nid where i: "i = Some nid" and nid: "nid \<noteq> []" by (cases i) auto
    let ?A = "assigned lvl pl (Node (Some nid) l cs)"
    have rel: "edges_after_nodes (nid # seen) (rel_ops pid nid)"
      using Node.prems by (intro rel_ops_ok) auto
    have kids: "edges_after_nodes (nid # seen) (fst (recurse_children cs (Some nid) ?A (Suc lvl)))"
      using Node.IH by (intro children_edges_ok) auto
    from rel kids show ?thesis
      by (simp add: i recurse_upload [OF nid] edges_after_nodes_append)
  qed
qed

text \<open>
  Claim C10. In every traversal, also one cut short by an exception, each edge merge comes
  after the upserts of both its endpoints; a traversal that completes issues, position by
  position in depth-first pre-order, the upsert of the node and then the merge of the edge
  to its parent.
\<close>

theorem edges_follow_upserts:
  "edges_after_nodes [] (fst (traverse_and_upload t))
   \<and> (snd (traverse_and_upload t) = None \<longrightarrow>
        fst (traverse_and_upload t) = concat (map (stmts_at t) (visited t)))"
proof -
  have "edges_after_nodes [] (fst (recurse t None None 0))"
    by (rule recurse_edges_ok) simp
  then show ?thesis
    using traverse_trace [of t] by (simp add: traverse_and_upload_def)
qed

theorem edges_follow_upserts_witness:
  "edges_after_nodes [] (fst (traverse_and_upload diamond_tree))
   \<and> snd (traverse_and_upload diamond_tree) = None
   \<and> fst (traverse_and_upload diamond_tree)
       = concat (map (stmts_at diamond_tree) (visited diamond_tree))"
proof -
  have h: "snd (traverse_and_upload diamond_tree) = None" by code_simp
  from edges_follow_upserts [of diamond_tree] h show ?thesis by blast
qed

section \<open>Roots and the example hierarchy\<close>

lemma set_set_add: "set (set_add x xs) = insert x (set xs)"
  by (auto simp: set_add_def)

lemma scan_classes:
  "set (all_classes (scan_triple t ix)) =
     set (all_classes ix) \<union> (if named_subclass t then {fst t, snd (snd t)} else {})"
  by (cases t) (auto simp: named_subclass_def set_set_add RDFS_label_def RDFS_subClassOf_def)

lemma scan_parents:
  "set (parents (scan_triple t ix)) =
     set (parents ix) \<union> (if named_subclass t then {fst t} else {})"
  by (cases t) (auto simp: named_subclass_def set_set_add RDFS_label_def RDFS_subClassOf_def)

lemma known_classes_Cons:
  "known_classes (t # g) = (if named_subclass t then {fst t, snd (snd t)} else {}) \<union> known_classes g"
  by (cases t) (auto simp: known_classes_def)

lemma has_named_parent_Cons:
  "has_named_parent (t # g) = (if named_subclass t then {fst t} else {}) \<union> has_named_parent g"
  by (cases t) (auto simp: has_named_parent_def)

lemma fold_scan_classes:
  "set (all_classes (fold scan_triple g ix)) = set (all_classes ix) \<union> known_classes g"
proof (induction g arbitrary: ix)
  case Nil
  show ?case by (simp add: known_classes_def)
next
  case (Cons t g)
  show ?case
    by (simp only: fold_simps Cons.IH scan_classes known_classes_Cons Un_assoc)
qed

lemma fold_scan_parents:
  "set (parents (fold scan_triple g ix)) = set (parents ix) \<union> has_named_parent g"
proof (induction g arbitrary: ix)
  case Nil
  show ?case by (simp add: has_named_parent_def)
next
  case (Cons t g)
  show ?case
    by (simp only: fold_simps Cons.IH scan_parents has_named_parent_Cons Un_assoc)
qed

lemma extract_classes: "set (all_classes (extract_hierarchy g)) = known_classes g"
  by (simp add: extract_hierarchy_def Let_def fold_scan_classes empty_index_def)

lemma extract_parents: "set (parents (extract_hierarchy g)) = has_named_parent g"
  by (simp add: extract_hierarchy_def Let_def fold_scan_parents empty_index_def)

lemma parse_animals: "parse_ttl_to_json (3 + k) animals None = Inr [animal_tree]"
proof -
  have ix: "extract_hierarchy animals =
      \<lparr>children = [(ex ''B'', [ex ''A'']), (ex ''C'', [ex ''B''])],
       labels = [(ex ''A'', ''Cat''), (ex ''B'', ''Mammal''), (ex ''C'', ''Animal'')],
       parents = [ex ''A'', ex ''B''],
       all_classes = [ex ''A'', ex ''B'', ex ''C'']\<rparr>"
    by code_simp
  have roots: "resolve_roots (extract_hierarchy animals) None = Inr [ex ''C'']"
    by code_simp
  have a: "build_json_tree (Suc k) (extract_hierarchy animals) (ex ''A'')
             = Some (Node (Some ''http://example.org/onto#A'') (Some ''Cat'') [])"
    by (simp add: ix children_of_def ex_def)
  have b: "build_json_tree (Suc (Suc k)) (extract_hierarchy animals) (ex ''B'')
             = Some (Node (Some ''http://example.org/onto#B'') (Some ''Mammal'')
                 [Node (Some ''http://example.org/onto#A'') (Some ''Cat'') []])"
    using a by (simp add: ix children_of_def ex_def)
  have c: "build_json_tree (Suc (Suc (Suc k))) (extract_hierarchy animals) (ex ''C'')
             = Some animal_tree"
    using b by (simp add: ix children_of_def ex_def animal_tree_def)
  have "3 + k = Suc (Suc (Suc k))" by simp
  with c have c3: "build_json_tree (3 + k) (extract_hierarchy animals) (ex ''C'') = Some animal_tree"
    by (simp only:)
  show ?thesis by (simp add: parse_ttl_to_json_def Let_def roots c3)
qed

lemma distinct_set_add: "distinct xs \<Longrightarrow> distinct (set_add x xs)"
  by (simp add: set_add_def)

lemma scan_distinct: "distinct (all_classes ix) \<Longrightarrow> distinct (all_classes (scan_triple t ix))"
  by (cases t) (simp add: distinct_set_add)

lemma fold_scan_distinct:
  "distinct (all_classes ix) \<Longrightarrow> distinct (all_classes (fold scan_triple g ix))"
  by (induction g arbitrary: ix) (simp_all add: scan_distinct del: scan_triple.simps)

lemma extract_distinct: "distinct (all_classes (extract_hierarchy g))"
  by (simp add: extract_hierarchy_def Let_def fold_scan_distinct empty_index_def)

lemma resolve_roots_implicit:
  "root_label = None \<or> root_label = Some [] \<Longrightarrow>
   resolve_roots ix root_label = Inr (filter (\<lambda>cls. cls \<notin> set (parents ix)) (all_classes ix))"
  by (auto simp: resolve_roots_def)

text \<open>
  Claim C2, as the code has it. For the hierarchy Cat below Mammal below Animal the built
  tree is C, B, A and the type tags are Animal for C (depth 0), Mammal for B (depth 1, its
  own label) and Mammal for A (depth 2, the tag of its parent B).
\<close>

theorem animals_type_tags:
  "parse_ttl_to_json (3 + k) animals None = Inr [animal_tree]
   \<and> upload_tags (fst (traverse_and_upload animal_tree))
       = [(''http://example.org/onto#C'', ''Animal''),
          (''http://example.org/onto#B'', ''Mammal''),
          (''http://example.org/onto#A'', ''Mammal'')]"
  by (simp add: parse_animals traverse_animal_tree)

text \<open>Claim C2 as stated fails: neither B nor A is given the type tag Animal.\<close>

theorem animals_tags_counterexample:
  "parse_ttl_to_json 3 animals None = Inr [animal_tree]
   \<and> (''http://example.org/onto#B'', ''Animal'')
        \<notin> set (upload_tags (fst (traverse_and_upload animal_tree)))
   \<and> (''http://example.org/onto#A'', ''Animal'')
        \<notin> set (upload_tags (fst (traverse_and_upload animal_tree)))"
  using parse_animals [of 0] by (simp add: traverse_animal_tree)

text \<open>
  Claim C4, as the code has it. With no root label the resolver returns, without
  repetition, exactly the known classes that are not marked as having a parent, and those
  are the known classes that are not the subject of a \<^verbatim>\<open>subClassOf\<close> triple whose
  object is a named entity. For the animals hierarchy that is C alone, and the one tree
  built is C with child B with child A.
\<close>

theorem implicit_roots:
  "(\<exists>roots. resolve_roots (extract_hierarchy g) None = Inr roots
      \<and> set roots = set (all_classes (extract_hierarchy g)) - set (parents (extract_hierarchy g))
      \<and> set roots = known_classes g - has_named_parent g
      \<and> distinct roots)
   \<and> resolve_roots (extract_hierarchy animals) None = Inr [ex ''C'']
   \<and> parse_ttl_to_json (3 + k) animals None = Inr [animal_tree]"
proof -
  let ?ix = "extract_hierarchy g"
  let ?roots = "filter (\<lambda>cls. cls \<notin> set (parents ?ix)) (all_classes ?ix)"
  have "resolve_roots (extract_hierarchy animals) None = Inr [ex ''C'']"
    by code_simp
  moreover have "resolve_roots ?ix None = Inr ?roots"
    by (simp add: resolve_roots_implicit)
  moreover have "set ?roots = set (all_classes ?ix) - set (parents ?ix)"
    by auto
  moreover have "set ?roots = known_classes g - has_named_parent g"
    by (auto simp: extract_classes extract_parents)
  moreover have "distinct ?roots"
    using extract_distinct [of g] by simp
  ultimately show ?thesis
    using parse_animals [of k] by blast
qed

theorem implicit_roots_witness:
  "(\<exists>roots. resolve_roots (extract_hierarchy diamond) None = Inr roots
      \<and> set roots = known_classes diamond - has_named_parent diamond \<and> distinct roots)
   \<and> resolve_roots (extract_hierarchy diamond) None = Inr [ex ''R'']"
proof -
  have "resolve_roots (extract_hierarchy diamond) None = Inr [ex ''R'']"
    by code_simp
  with implicit_roots [of diamond 0] show ?thesis by blast
qed

text \<open>
  Claim C4 as stated fails. In the hierarchy \<open>restricted\<close> the class A is the subject of
  a \<^verbatim>\<open>subClassOf\<close> triple, with a blank node as object, so no known class is free of
  such a triple; yet A is not marked as having a parent and is returned as the root.
\<close>

theorem implicit_roots_counterexample:
  "resolve_roots (extract_hierarchy restricted) None = Inr [ex ''A'']
   \<and> ex ''A'' \<in> known_classes restricted
   \<and> ex ''A'' \<in> subclass_subjects restricted
   \<and> ex ''A'' \<notin> set (parents (extract_hierarchy restricted))
   \<and> set [ex ''A''] \<noteq> known_classes restricted - subclass_subjects restricted"
proof -
  have roots: "resolve_roots (extract_hierarchy restricted) None = Inr [ex ''A'']"
    by code_simp
  have known: "ex ''A'' \<in> known_classes restricted"
  proof -
    have "(ex ''X'', RDFS_subClassOf, ex ''A'') \<in> set restricted"
      by (simp add: restricted_def)
    moreover have "named_subclass (ex ''X'', RDFS_subClassOf, ex ''A'')"
      by (simp add: named_subclass_def ex_def)
    ultimately show ?thesis unfolding known_classes_def by blast
  qed
  have subj: "ex ''A'' \<in> subclass_subjects restricted"
  proof -
    have "(ex ''A'', RDFS_subClassOf, BNode ''b1'') \<in> set restricted"
      by (simp add: restricted_def)
    then show ?thesis unfolding subclass_subjects_def by blast
  qed
  have unmarked: "ex ''A'' \<notin> set (parents (extract_hierarchy restricted))"
    by code_simp
  from subj have "set [ex ''A''] \<noteq> known_classes restricted - subclass_subjects restricted"
    by auto
  with roots known subj unmarked show ?thesis by simp
qed

section \<open>The orchestrator\<close>

lemma those_map_Some:
  "those (map f xs) = Some ys \<Longrightarrow> length ys = length xs \<and> (\<forall>k < length xs. f (xs ! k) = Some (ys ! k))"
proof (induction xs arbitrary: ys)
  case Nil
  then show ?case by simp
next
  case (Cons x xs)
  from Cons.prems obtain y ys' where y: "f x = Some y" and ys': "those (map f xs) = Some ys'"
    and ys: "ys = y # ys'"
    by (auto split: option.splits)
  from Cons.IH [OF ys'] have "length ys' = length xs"
    and "\<forall>k < length xs. f (xs ! k) = Some (ys' ! k)" by simp_all
  with y ys show ?case by (auto simp: nth_Cons split: nat.splits)
qed

lemma those_map_set:
  assumes "those (map f xs) = Some ys" and "y \<in> set ys"
  shows "\<exists>x \<in> set xs. f x = Some y"
proof -
  from those_map_Some [OF assms(1)] have len: "length ys = length xs"
    and nth: "\<forall>k < length xs. f (xs ! k) = Some (ys ! k)" by simp_all
  from assms(2) obtain k where "k < length ys" "ys ! k = y" by (auto simp: in_set_conv_nth)
  with len nth show ?thesis by (metis nth_mem)
qed

lemma build_labelled: "build_json_tree limit ix n = Some t \<Longrightarrow> labelled t"
proof (induction limit arbitrary: n t)
  case 0
  then show ?case by simp
next
  case (Suc limit)
  from Suc.prems obtain cs where
    cs: "those (map (build_json_tree limit ix) (children_of ix n)) = Some cs"
    and t: "t = Node (Some (str_of n))
                 (Some (case map_of (labels ix) n of Some l \<Rightarrow> l
                        | None \<Rightarrow> extract_fragment (str_of n))) cs"
    by (auto split: option.splits)
  have "\<forall>c \<in> set cs. labelled c"
    using those_map_set [OF cs] Suc.IH by blast
  with t show ?case by (simp add: list_all_iff)
qed

lemma parse_labelled:
  assumes "parse_ttl_to_json limit g root_label = Inr trees"
  shows "list_all labelled trees"
proof -
  from assms obtain roots where
    "those (map (build_json_tree limit (extract_hierarchy g)) roots) = Some trees"
    by (auto simp: parse_ttl_to_json_def Let_def split: sum.splits option.splits)
  from those_map_set [OF this] build_labelled show ?thesis
    by (fastforce simp: list_all_iff)
qed

lemma children_no_error:
  assumes "\<And>c pid pl lvl. c \<in> set cs \<Longrightarrow> snd (recurse c pid pl lvl) = None"
  shows "snd (recurse_children cs pid pl lvl) = None"
  using assms by (induction cs) (simp_all add: recurse_children_Cons)

lemma labelled_no_error: "labelled t \<Longrightarrow> snd (recurse t pid pl lvl) = None"
proof (induction t arbitrary: pid pl lvl)
  case (Node i l cs)
  from Node.prems obtain nid x where i: "i = Some nid" and l: "l = Some x"
    and kids: "\<forall>c \<in> set cs. labelled c"
    by (auto simp: list_all_iff)
  show ?case
  proof (cases "nid = []")
    case True
    with i show ?thesis by (simp add: recurse_empty_id)
  next
    case False
    have "snd (recurse_children cs (Some nid) (assigned lvl pl (Node (Some nid) l cs)) (Suc lvl)) = None"
      using Node.IH kids by (intro children_no_error) simp
    with i show ?thesis by (simp add: recurse_upload [OF False])
  qed
qed

lemma upload_all_labelled:
  "list_all labelled trees \<Longrightarrow>
   upload_all trees = (map (\<lambda>t. Commit (fst (traverse_and_upload t))) trees, None)"
proof (induction trees)
  case Nil
  show ?case by simp
next
  case (Cons t trees)
  then have "snd (traverse_and_upload t) = None"
    by (simp add: traverse_and_upload_def labelled_no_error)
  with Cons show ?case
    by (cases "traverse_and_upload t") (simp add: Let_def)
qed

lemma fold_count: "fold (\<lambda>c acc. acc + f c) cs (a::nat) = a + sum_list (map f cs)"
  by (induction cs arbitrary: a) simp_all

lemma count_nodes_sum: "count_nodes (Node i l cs) = 1 + sum_list (map count_nodes cs)"
  by (simp add: fold_count)

lemma count_uploads_append: "count_uploads (a @ b) = count_uploads a + count_uploads b"
  by (induction a rule: count_uploads.induct) simp_all

lemma count_uploads_rel: "count_uploads (rel_ops pid nid) = 0"
  by (cases pid) simp_all

lemma children_count:
  assumes "\<And>c pid pl lvl. c \<in> set cs \<Longrightarrow>
             snd (recurse c pid pl lvl) = None \<and> count_uploads (fst (recurse c pid pl lvl)) = count_nodes c"
  shows "snd (recurse_children cs pid pl lvl) = None
         \<and> count_uploads (fst (recurse_children cs pid pl lvl)) = sum_list (map count_nodes cs)"
  using assms by (induction cs) (simp_all add: recurse_children_Cons count_uploads_append)

lemma all_ids_count:
  "all_ids t \<Longrightarrow>
   snd (recurse t pid pl lvl) = None \<and> count_uploads (fst (recurse t pid pl lvl)) = count_nodes t"
proof (induction t arbitrary: pid pl lvl)
  case (Node i l cs)
  from Node.prems obtain nid where i: "i = Some nid" and nid: "nid \<noteq> []"
    and kids: "\<forall>c \<in> set cs. all_ids c"
    by (cases i) (auto simp: list_all_iff)
  let ?A = "assigned lvl pl (Node (Some nid) l cs)"
  have "snd (recurse_children cs (Some nid) ?A (Suc lvl)) = None
        \<and> count_uploads (fst (recurse_children cs (Some nid) ?A (Suc lvl)))
            = sum_list (map count_nodes cs)"
    using Node.IH kids by (intro children_count) simp
  then show ?case
    by (simp add: i recurse_upload [OF nid] count_uploads_append count_uploads_rel fold_count)
qed

lemma committed_uploads_all_ids:
  "list_all all_ids trees \<Longrightarrow>
   committed_uploads (map (\<lambda>t. Commit (fst (traverse_and_upload t))) trees)
     = sum_list (map count_nodes trees)"
  by (induction trees) (simp_all add: traverse_and_upload_def all_ids_count)

lemma run_conversion_commit:
  assumes "parse_ttl_to_json limit g root_label = Inr trees"
  shows "run_conversion limit g root_label False =
           (Inr (Success (sum_list (map count_nodes trees))),
            Reset # map (\<lambda>t. Commit (fst (traverse_and_upload t))) trees)"
  using assms upload_all_labelled [OF parse_labelled [OF assms]]
  by (simp add: run_conversion_def Let_def)

text \<open>
  Claim C9. In commit mode, when the trees are built, the conversion resets the database,
  commits one transaction per tree and returns success with the sum over the trees of the
  recursive node count (one for the node plus the counts of its children). When every node
  carries a non-empty id, that is the number of node upserts committed.
\<close>

theorem commit_reports_node_count:
  assumes "parse_ttl_to_json limit g root_label = Inr trees"
  shows "run_conversion limit g root_label False =
           (Inr (Success (sum_list (map count_nodes trees))),
            Reset # map (\<lambda>t. Commit (fst (traverse_and_upload t))) trees)
         \<and> (\<forall>i l cs. count_nodes (Node i l cs) = 1 + sum_list (map count_nodes cs))
         \<and> (list_all all_ids trees \<longrightarrow>
              committed_uploads (snd (run_conversion limit g root_label False))
                = sum_list (map count_nodes trees))"
  using run_conversion_commit [OF assms]
  by (simp add: committed_uploads_all_ids count_nodes_sum del: count_nodes.simps)

theorem commit_reports_node_count_witness:
  "parse_ttl_to_json 3 diamond None = Inr [diamond_tree]
   \<and> list_all all_ids [diamond_tree]
   \<and> fst (run_conversion 3 diamond None False) = Inr (Success 5)
   \<and> committed_uploads (snd (run_conversion 3 diamond None False)) = 5"
proof -
  have p: "parse_ttl_to_json 3 diamond None = Inr [diamond_tree]"
    by code_simp
  have a: "list_all all_ids [diamond_tree]"
    by code_simp
  have n: "sum_list (map count_nodes [diamond_tree]) = 5"
    by code_simp
  note commit = commit_reports_node_count [OF p]
  from commit have "fst (run_conversion 3 diamond None False)
      = Inr (Success (sum_list (map count_nodes [diamond_tree])))"
    by (simp only: fst_conv)
  then have f: "fst (run_conversion 3 diamond None False) = Inr (Success 5)"
    by (simp only: n)
  from commit have "list_all all_ids [diamond_tree] \<longrightarrow>
      committed_uploads (snd (run_conversion 3 diamond None False))
        = sum_list (map count_nodes [diamond_tree])"
    by blast
  with a have "committed_uploads (snd (run_conversion 3 diamond None False))
      = sum_list (map count_nodes [diamond_tree])"
    by (rule rev_mp)
  then have c: "committed_uploads (snd (run_conversion 3 diamond None False)) = 5"
    by (simp only: n)
  from p a f c show ?thesis by blast
qed

text \<open>
  Claim C7. With the preview flag set the conversion performs no database operation at
  all, so any database is left as it was, and when the trees are built it returns them,
  in order, as the preview.
\<close>

theorem preview_touches_nothing:
  "snd (run_conversion limit g root_label True) = []
   \<and> fold run_session_op (snd (run_conversion limit g root_label True)) db = db
   \<and> (parse_ttl_to_json limit g root_label = Inr trees \<longrightarrow>
        run_conversion limit g root_label True = (Inr (Preview trees), []))
   \<and> (parse_ttl_to_json limit g root_label = Inl e \<longrightarrow>
        run_conversion limit g root_label True = (Inl e, []))"
  by (cases "parse_ttl_to_json limit g root_label") (simp_all add: run_conversion_def)

theorem preview_touches_nothing_witness:
  "parse_ttl_to_json 3 animals None = Inr [animal_tree]
   \<and> run_conversion 3 animals None True = (Inr (Preview [animal_tree]), [])
   \<and> parse_ttl_to_json 3 animals (Some ''Nonexistent'')
       = Inl (ValueError ''Root label 'Nonexistent' not found in TTL file.'')
   \<and> run_conversion 3 animals (Some ''Nonexistent'') True
       = (Inl (ValueError ''Root label 'Nonexistent' not found in TTL file.''), [])"
proof -
  have p: "parse_ttl_to_json 3 animals None = Inr [animal_tree]"
    using parse_animals [of 0] by simp
  have q: "parse_ttl_to_json 3 animals (Some ''Nonexistent'')
             = Inl (ValueError ''Root label 'Nonexistent' not found in TTL file.'')"
    by code_simp
  from preview_touches_nothing [of 3 animals None empty_db "[animal_tree]"] p
  have "run_conversion 3 animals None True = (Inr (Preview [animal_tree]), [])" by blast
  moreover from preview_touches_nothing
      [of 3 animals "Some ''Nonexistent''" empty_db _
          "ValueError ''Root label 'Nonexistent' not found in TTL file.''"] q
  have "run_conversion 3 animals (Some ''Nonexistent'') True
          = (Inl (ValueError ''Root label 'Nonexistent' not found in TTL file.''), [])" by blast
  ultimately show ?thesis using p q by simp
qed

section \<open>A root label without a match\<close>

lemma wf_URIRef: "is_URIRef ob \<Longrightarrow> wf_term ob \<Longrightarrow> str_of ob \<noteq> []"
  by (cases ob) simp_all

lemma scan_keys:
  assumes "\<forall>u \<in> fst ` set (labels ix) \<union> set (all_classes ix). str_of u \<noteq> []"
    and "str_of s \<noteq> []" and "wf_term ob"
  shows "\<forall>u \<in> fst ` set (labels (scan_triple (s, p, ob) ix))
              \<union> set (all_classes (scan_triple (s, p, ob) ix)). str_of u \<noteq> []"
  using assms by (auto simp: dom_update set_set_add wf_URIRef)

lemma fold_scan_keys:
  assumes "wf_graph g"
    and "\<forall>u \<in> fst ` set (labels ix) \<union> set (all_classes ix). str_of u \<noteq> []"
  shows "\<forall>u \<in> fst ` set (labels (fold scan_triple g ix))
              \<union> set (all_classes (fold scan_triple g ix)). str_of u \<noteq> []"
  using assms
proof (induction g arbitrary: ix)
  case Nil
  then show ?case by simp
next
  case (Cons t g)
  obtain s p ob where t: "t = (s, p, ob)" by (cases t)
  from Cons.prems(1) have s: "str_of s \<noteq> []" and ob: "wf_term ob" and g: "wf_graph g"
    by (simp_all add: wf_graph_def t)
  have "\<forall>u \<in> fst ` set (labels (scan_triple (s, p, ob) ix))
              \<union> set (all_classes (scan_triple (s, p, ob) ix)). str_of u \<noteq> []"
    using Cons.prems(2) s ob by (rule scan_keys)
  from Cons.IH [OF g this] show ?case by (simp add: t del: scan_triple.simps)
qed

lemma fill_keys:
  "\<forall>u \<in> fst ` set ls \<union> set cls. str_of u \<noteq> [] \<Longrightarrow>
   \<forall>u \<in> fst ` set (fold fill_label cls ls). str_of u \<noteq> []"
proof (induction cls arbitrary: ls)
  case Nil
  then show ?case by simp
next
  case (Cons c cls)
  have "\<forall>u \<in> fst ` set (fill_label c ls) \<union> set cls. str_of u \<noteq> []"
    using Cons.prems by (auto simp: fill_label_def dom_update)
  from Cons.IH [OF this] show ?case by simp
qed

lemma extract_keys:
  assumes "wf_graph g" and "(u, l) \<in> set (labels (extract_hierarchy g))"
  shows "str_of u \<noteq> []"
proof -
  have "\<forall>u \<in> fst ` set (labels (fold scan_triple g empty_index))
              \<union> set (all_classes (fold scan_triple g empty_index)). str_of u \<noteq> []"
    using assms(1) by (rule fold_scan_keys) (simp add: empty_index_def)
  then have "\<forall>u \<in> fst ` set (labels (extract_hierarchy g)). str_of u \<noteq> []"
    unfolding extract_hierarchy_def Let_def using fill_keys by simp
  with assms(2) show ?thesis by force
qed

lemma resolve_no_match:
  assumes "r \<noteq> []" and "\<not> label_matches ix r"
  shows "resolve_roots ix (Some r) = Inl (root_not_found r)"
proof -
  from assms(2) have "find (\<lambda>(uri, label). lower label = lower r) (labels ix) = None"
    by (auto simp: label_matches_def find_None_iff list_ex_iff)
  with assms(1) show ?thesis
    by (simp add: resolve_roots_def get_uri_by_label_def)
qed

lemma resolve_match:
  assumes "r \<noteq> []" and "label_matches ix r"
    and "\<And>u l. (u, l) \<in> set (labels ix) \<Longrightarrow> str_of u \<noteq> []"
  shows "\<exists>u. resolve_roots ix (Some r) = Inr [u]"
proof -
  from assms(2) obtain u l where
    f: "find (\<lambda>(uri, label). lower label = lower r) (labels ix) = Some (u, l)"
    by (cases "find (\<lambda>(uri, label). lower label = lower r) (labels ix)")
       (auto simp: label_matches_def find_None_iff list_ex_iff)
  then have "(u, l) \<in> set (labels ix)"
    by (auto simp: find_Some_iff in_set_conv_nth)
  then have "str_of u \<noteq> []" by (rule assms(3))
  with f assms(1) show ?thesis
    by (simp add: resolve_roots_def get_uri_by_label_def)
qed

lemma parse_after_roots:
  "resolve_roots (extract_hierarchy g) root_label = Inr roots \<Longrightarrow>
   parse_ttl_to_json limit g root_label = Inl RecursionError
   \<or> (\<exists>trees. parse_ttl_to_json limit g root_label = Inr trees)"
  by (simp add: parse_ttl_to_json_def Let_def split: option.splits)

lemma run_conversion_no_value_error:
  assumes "parse_ttl_to_json limit g root_label = Inl RecursionError
           \<or> (\<exists>trees. parse_ttl_to_json limit g root_label = Inr trees)"
  shows "fst (run_conversion limit g root_label preview_only) \<noteq> Inl (ValueError msg)"
proof -
  from assms consider "parse_ttl_to_json limit g root_label = Inl RecursionError"
    | trees where "parse_ttl_to_json limit g root_label = Inr trees" by blast
  then show ?thesis
  proof cases
    case 1
    then show ?thesis by (simp add: run_conversion_def)
  next
    case 2
    show ?thesis
    proof (cases preview_only)
      case True
      with 2 show ?thesis by (simp add: run_conversion_def)
    next
      case False
      with run_conversion_commit [OF 2] show ?thesis by simp
    qed
  qed
qed

text \<open>
  Claim C5. For a non-empty root label that no entry of the label lookup matches
  case-insensitively, parsing fails with the error that names the label, so there are no
  trees, and the conversion returns that error with an empty log of database operations:
  no reset, no transaction. When an entry of a parsed graph matches, the conversion does
  not end in that error.
\<close>

theorem root_label_not_found:
  assumes "r \<noteq> []"
  shows "(\<not> label_matches (extract_hierarchy g) r \<longrightarrow>
            parse_ttl_to_json limit g (Some r)
              = Inl (ValueError (''Root label '' @ [CHR 0x27] @ r @ [CHR 0x27]
                                 @ '' not found in TTL file.''))
            \<and> run_conversion limit g (Some r) preview_only
              = (Inl (ValueError (''Root label '' @ [CHR 0x27] @ r @ [CHR 0x27]
                                  @ '' not found in TTL file.'')), []))
         \<and> (wf_graph g \<and> label_matches (extract_hierarchy g) r \<longrightarrow>
              (\<forall>msg. fst (run_conversion limit g (Some r) preview_only) \<noteq> Inl (ValueError msg)))"
proof (intro conjI impI allI)
  assume "\<not> label_matches (extract_hierarchy g) r"
  with assms have "resolve_roots (extract_hierarchy g) (Some r) = Inl (root_not_found r)"
    by (rule resolve_no_match)
  then show p: "parse_ttl_to_json limit g (Some r)
      = Inl (ValueError (''Root label '' @ [CHR 0x27] @ r @ [CHR 0x27]
                         @ '' not found in TTL file.''))"
    by (simp add: parse_ttl_to_json_def Let_def root_not_found_def)
  then show "run_conversion limit g (Some r) preview_only
      = (Inl (ValueError (''Root label '' @ [CHR 0x27] @ r @ [CHR 0x27]
                          @ '' not found in TTL file.'')), [])"
    by (simp add: run_conversion_def)
next
  fix msg
  assume a: "wf_graph g \<and> label_matches (extract_hierarchy g) r"
  then have "\<exists>u. resolve_roots (extract_hierarchy g) (Some r) = Inr [u]"
    using assms extract_keys [of g] by (intro resolve_match) auto
  then obtain u where "resolve_roots (extract_hierarchy g) (Some r) = Inr [u]" ..
  from parse_after_roots [OF this]
  show "fst (run_conversion limit g (Some r) preview_only) \<noteq> Inl (ValueError msg)"
    by (rule run_conversion_no_value_error)
qed

theorem root_label_not_found_witness:
  "''Nonexistent'' \<noteq> [] \<and> \<not> label_matches (extract_hierarchy animals) ''Nonexistent''
   \<and> run_conversion 3 animals (Some ''Nonexistent'') False
       = (Inl (ValueError ''Root label 'Nonexistent' not found in TTL file.''), [])
   \<and> ''mammal'' \<noteq> [] \<and> wf_graph animals \<and> label_matches (extract_hierarchy animals) ''mammal''
   \<and> fst (run_conversion 3 animals (Some ''mammal'') False)
       \<noteq> Inl (ValueError ''Root label 'mammal' not found in TTL file.'')"
proof -
  have n: "\<not> label_matches (extract_hierarchy animals) ''Nonexistent''"
    by code_simp
  have m: "label_matches (extract_hierarchy animals) ''mammal''"
    by code_simp
  have w: "wf_graph animals"
    by code_simp
  have ne: "''Nonexistent'' \<noteq> []" "''mammal'' \<noteq> []" by simp_all
  from root_label_not_found [OF ne(1), of animals 3 False] n
  have a: "run_conversion 3 animals (Some ''Nonexistent'') False
       = (Inl (ValueError ''Root label 'Nonexistent' not found in TTL file.''), [])"
    by simp
  from root_label_not_found [OF ne(2), of animals 3 False] m w
  have b: "fst (run_conversion 3 animals (Some ''mammal'') False)
       \<noteq> Inl (ValueError ''Root label 'mammal' not found in TTL file.'')"
    by blast
  from n m w a b show ?thesis by simp
qed

section \<open>Resolved labels\<close>

lemma scan_label:
  "map_of (labels (scan_triple (s, p, ob) ix)) c =
     (if s = c \<and> p = RDFS_label then Some (str_of ob) else map_of (labels ix) c)"
  by (simp add: update_conv')

lemma fold_scan_label:
  "map_of (labels (fold scan_triple g ix)) c =
     (case explicit_label g c of Some l \<Rightarrow> Some l | None \<Rightarrow> map_of (labels ix) c)"
proof (induction g arbitrary: ix)
  case Nil
  show ?case by simp
next
  case (Cons t g)
  obtain s p ob where t: "t = (s, p, ob)" by (cases t)
  show ?case
    by (simp add: t Cons.IH scan_label del: scan_triple.simps split: option.splits)
qed

lemma fill_label_one:
  "map_of (fill_label x ls) c =
     (case map_of ls c of
        Some l \<Rightarrow> Some l
      | None \<Rightarrow> if c = x then Some (extract_fragment (str_of c)) else None)"
  by (auto simp: fill_label_def update_conv' split: option.splits)

lemma fill_label_map:
  "map_of (fold fill_label cls ls) c =
     (case map_of ls c of
        Some l \<Rightarrow> Some l
      | None \<Rightarrow> if c \<in> set cls then Some (extract_fragment (str_of c)) else None)"
proof (induction cls arbitrary: ls)
  case Nil
  show ?case by (simp split: option.splits)
next
  case (Cons x cls)
  show ?case
    by (simp add: Cons.IH fill_label_one split: option.splits)
qed

lemma extract_label:
  "map_of (labels (extract_hierarchy g)) c =
     (case explicit_label g c of
        Some l \<Rightarrow> Some l
      | None \<Rightarrow> if c \<in> known_classes g then Some (extract_fragment (str_of c)) else None)"
proof -
  have "map_of (labels (fold scan_triple g empty_index)) c = explicit_label g c"
    by (simp add: fold_scan_label empty_index_def split: option.splits)
  moreover have "set (all_classes (fold scan_triple g empty_index)) = known_classes g"
    by (simp add: fold_scan_classes empty_index_def)
  ultimately show ?thesis
    by (simp add: extract_hierarchy_def Let_def fill_label_map)
qed

lemma split_on_nonempty: "split_on c s \<noteq> []"
  by (induction s) (auto split: list.splits)

lemma split_on_notin: "c \<notin> set s \<Longrightarrow> split_on c s = [s]"
  by (induction s) auto

lemma split_on_in: "c \<in> set s \<Longrightarrow> \<exists>w v ws. split_on c s = w # v # ws"
proof (induction s)
  case Nil
  then show ?case by simp
next
  case (Cons x s)
  show ?case
  proof (cases "x = c")
    case True
    obtain v ws where "split_on c s = v # ws"
      using split_on_nonempty [of c s] by (cases "split_on c s") auto
    with True show ?thesis by simp
  next
    case False
    with Cons.prems have "c \<in> set s" by simp
    from Cons.IH [OF this] False show ?thesis by auto
  qed
qed

lemma after_last_notin: "c \<notin> set s \<Longrightarrow> after_last c s = s"
proof -
  assume "c \<notin> set s"
  then have "\<forall>x \<in> set (rev s). x \<noteq> c" by auto
  then have "takeWhile (\<lambda>x. x \<noteq> c) (rev s) = rev s"
    by (simp only: takeWhile_eq_all_conv)
  then show ?thesis by (simp only: after_last_def rev_rev_ident)
qed

lemma after_last_Cons:
  "after_last c (x # s) =
     (if c \<in> set s then after_last c s else if x = c then s else x # s)"
proof (cases "c \<in> set s")
  case True
  then have "takeWhile (\<lambda>y. y \<noteq> c) (rev s @ [x]) = takeWhile (\<lambda>y. y \<noteq> c) (rev s)"
    by (intro takeWhile_append1 [of c]) simp_all
  with True show ?thesis by (simp add: after_last_def)
next
  case False
  then have "takeWhile (\<lambda>y. y \<noteq> c) (rev s @ [x]) = rev s @ takeWhile (\<lambda>y. y \<noteq> c) [x]"
    by (intro takeWhile_append2) auto
  with False show ?thesis by (simp add: after_last_def)
qed

lemma last_split_on: "last (split_on c s) = after_last c s"
proof (induction s)
  case Nil
  show ?case by (simp add: after_last_def)
next
  case (Cons x s)
  show ?case
  proof (cases "c \<in> set s")
    case True
    from split_on_in [OF True] obtain w v ws where "split_on c s = w # v # ws" by blast
    with Cons True show ?thesis by (simp add: after_last_Cons)
  next
    case False
    then show ?thesis by (simp add: after_last_Cons split_on_notin)
  qed
qed

lemma extract_fragment_fragment: "extract_fragment uri = fragment uri"
  by (simp add: extract_fragment_def fragment_def rstrip_def last_split_on)

text \<open>
  Claim C8, as the code has it. After extraction every known class, that is every subject
  or object of a \<^verbatim>\<open>subClassOf\<close> triple whose object is a named entity, has a
  resolved label in the lookup: its explicit label if it has a label triple, otherwise
  the fragment of its URI. Nothing makes the label non-empty.
\<close>

theorem resolved_labels:
  assumes "c \<in> known_classes g"
  shows "map_of (labels (extract_hierarchy g)) c = Some (resolved_label g c)
         \<and> (explicit_label g c = None \<longrightarrow> resolved_label g c = extract_fragment (str_of c))
         \<and> extract_fragment (str_of c) = fragment (str_of c)"
  using assms
  by (simp add: extract_label resolved_label_def extract_fragment_fragment split: option.splits)

theorem resolved_labels_witness:
  "ex ''C'' \<in> known_classes animals
   \<and> map_of (labels (extract_hierarchy animals)) (ex ''C'') = Some ''Animal''
   \<and> ex ''X'' \<in> known_classes diamond
   \<and> map_of (labels (extract_hierarchy diamond)) (ex ''X'') = Some ''X''"
proof -
  have c: "ex ''C'' \<in> known_classes animals"
  proof -
    have "(ex ''B'', RDFS_subClassOf, ex ''C'') \<in> set animals"
      by (simp add: animals_def)
    moreover have "named_subclass (ex ''B'', RDFS_subClassOf, ex ''C'')"
      by (simp add: named_subclass_def ex_def)
    ultimately show ?thesis unfolding known_classes_def by blast
  qed
  have x: "ex ''X'' \<in> known_classes diamond"
  proof -
    have "(ex ''X'', RDFS_subClassOf, ex ''A'') \<in> set diamond"
      by (simp add: diamond_def)
    moreover have "named_subclass (ex ''X'', RDFS_subClassOf, ex ''A'')"
      by (simp add: named_subclass_def ex_def)
    ultimately show ?thesis unfolding known_classes_def by blast
  qed
  have rc: "resolved_label animals (ex ''C'') = ''Animal''"
    by code_simp
  have rx: "resolved_label diamond (ex ''X'') = ''X''"
    by code_simp
  from resolved_labels [OF c] resolved_labels [OF x] c x rc rx show ?thesis by simp
qed

text \<open>
  Claim C8 as stated fails. The class whose URI ends in \<^verbatim>\<open>#\<close> gets the empty label,
  and the class Y, subject of a \<^verbatim>\<open>subClassOf\<close> triple with a blank node as object,
  gets no label at all.
\<close>

theorem resolved_labels_counterexample:
  "ex [] \<in> known_classes unlabelled
   \<and> map_of (labels (extract_hierarchy unlabelled)) (ex []) = Some []
   \<and> ex ''Y'' \<in> subclass_subjects unlabelled
   \<and> map_of (labels (extract_hierarchy unlabelled)) (ex ''Y'') = None"
proof -
  have k: "ex [] \<in> known_classes unlabelled"
  proof -
    have "(ex ''A'', RDFS_subClassOf, ex []) \<in> set unlabelled"
      by (simp add: unlabelled_def)
    moreover have "named_subclass (ex ''A'', RDFS_subClassOf, ex [])"
      by (simp add: named_subclass_def ex_def)
    ultimately show ?thesis unfolding known_classes_def by blast
  qed
  have e: "map_of (labels (extract_hierarchy unlabelled)) (ex []) = Some []"
    by code_simp
  have s: "ex ''Y'' \<in> subclass_subjects unlabelled"
  proof -
    have "(ex ''Y'', RDFS_subClassOf, BNode ''b1'') \<in> set unlabelled"
      by (simp add: unlabelled_def)
    then show ?thesis unfolding subclass_subjects_def by blast
  qed
  have n: "map_of (labels (extract_hierarchy unlabelled)) (ex ''Y'') = None"
    by code_simp
  from k e s n show ?thesis by simp
qed

section \<open>Uploading a tree twice\<close>

text \<open>
  Claim C6 fails on the code. The class X of the diamond hierarchy is reached through two
  parents with different type tags, and the \<^verbatim>\<open>MERGE\<close> of \<^verbatim>\<open>upload_node\<close>
  matches on tag and id together: one upload creates two nodes with the id of X. The
  relationship statement matches its endpoints by id alone, so the second upload adds an
  edge from the second X node to A that the first upload did not create: five edges after
  one upload, six after two.
\<close>

theorem upload_twice_diamond:
  "parse_ttl_to_json 3 diamond None = Inr [diamond_tree]
   \<and> snd (traverse_and_upload diamond_tree) = None
   \<and> length (db_nodes (upload_tree diamond_tree empty_db)) = 5
   \<and> with_id (upload_tree diamond_tree empty_db) ''http://example.org/onto#X'' = [2, 4]
   \<and> db_rels (upload_tree diamond_tree empty_db) = [(1, 0), (2, 1), (3, 0), (2, 3), (4, 3)]
   \<and> db_rels (upload_tree diamond_tree (upload_tree diamond_tree empty_db))
       = [(1, 0), (2, 1), (3, 0), (2, 3), (4, 3), (4, 1)]
   \<and> upload_tree diamond_tree (upload_tree diamond_tree empty_db)
       \<noteq> upload_tree diamond_tree empty_db"
proof -
  have p: "parse_ttl_to_json 3 diamond None = Inr [diamond_tree]"
    by code_simp
  have e: "snd (traverse_and_upload diamond_tree) = None"
    by code_simp
  have n: "length (db_nodes (upload_tree diamond_tree empty_db)) = 5"
    by code_simp
  have x: "with_id (upload_tree diamond_tree empty_db) ''http://example.org/onto#X'' = [2, 4]"
    by code_simp
  have r1: "db_rels (upload_tree diamond_tree empty_db) = [(1, 0), (2, 1), (3, 0), (2, 3), (4, 3)]"
    by code_simp
  have r2: "db_rels (upload_tree diamond_tree (upload_tree diamond_tree empty_db))
       = [(1, 0), (2, 1), (3, 0), (2, 3), (4, 3), (4, 1)]"
    by code_simp
  have "db_rels (upload_tree diamond_tree (upload_tree diamond_tree empty_db))
       \<noteq> db_rels (upload_tree diamond_tree empty_db)"
    by (simp only: r1 r2) simp
  then have d: "upload_tree diamond_tree (upload_tree diamond_tree empty_db)
       \<noteq> upload_tree diamond_tree empty_db"
    by auto
  from p e n x r1 r2 d show ?thesis by blast
qed

end
